theory Spec2Isabelle
  imports Complex_Main "HOL-Library.AList"
begin

section \<open>Capture-the-flag server: shallow embedding of \<^verbatim>\<open>Source/server.py\<close>\<close>

text \<open>
  The embedding follows \<^verbatim>\<open>server.py\<close> function by function. Python dictionaries are
  association lists in insertion order (the order in which \<^verbatim>\<open>dict.items()\<close> and
  \<^verbatim>\<open>dict.values()\<close> iterate): \<open>map_of\<close> is \<^verbatim>\<open>dict.get\<close>, \<open>AList.update\<close> is item
  assignment, \<open>AList.delete\<close> is \<^verbatim>\<open>dict.pop(k, None)\<close>, and \<open>AList.map_entry k f\<close> is the
  in-place mutation of the object stored under \<open>k\<close>.

  Coordinates are Python floats. Every coordinate the server produces is integer valued
  (integer spawn points, steps of \<open>6.0\<close>, clamping to \<open>0\<close>, \<open>1000\<close> or \<open>600\<close>) and far below
  \<open>2^53\<close>, so float arithmetic on them is exact; they are modelled as \<open>real\<close>. The random
  sample of \<^verbatim>\<open>random.random()\<close> is a parameter of the function that draws it: the real
  number the returned double denotes. It is compared with \<^verbatim>\<open>STEAL_CHANCE\<close>, the double
  written \<^verbatim>\<open>0.35\<close>, which is the rational \<open>3152519739159347 / 2^53\<close>; comparing two
  doubles is comparing the reals they denote. The mutex
  objects (\<^verbatim>\<open>lock_obj\<close>, \<^verbatim>\<open>struct_lock\<close>) and the socket handle stored in a player are
  not part of the model: each modelled function is one atomic step.
\<close>

subsection \<open>Server constants\<close>

definition SCORE_TO_WIN :: int where "SCORE_TO_WIN = 5"
definition PICKUP_RADIUS :: real where "PICKUP_RADIUS = 30"
definition STEAL_CHANCE :: real where "STEAL_CHANCE = 3152519739159347 / 9007199254740992"
definition BASE_RADIUS :: real where "BASE_RADIUS = 50"
definition MAP_WIDTH :: int where "MAP_WIDTH = 1000"
definition MAP_HEIGHT :: int where "MAP_HEIGHT = 600"

subsection \<open>Data model\<close>

text \<open>\<^verbatim>\<open>class Player\<close>: the fields \<^verbatim>\<open>pid, x, y, team, red, blue\<close>.\<close>

record player =
  p_pid :: int
  p_x :: real
  p_y :: real
  p_team :: string
  p_red :: bool
  p_blue :: bool

text \<open>
  \<^verbatim>\<open>class Flag\<close>: the fields \<^verbatim>\<open>team, spawn_x, spawn_y, x, y, carrier\<close>. The attribute
  \<^verbatim>\<open>locked\<close> is not declared by the class; \<^verbatim>\<open>check_score\<close> and \<^verbatim>\<open>remove_player\<close> create
  it by assignment, so it is optional here.
\<close>

record flag =
  f_team :: string
  f_spawn_x :: real
  f_spawn_y :: real
  f_x :: real
  f_y :: real
  f_carrier :: "int option"
  f_locked :: "bool option"

text \<open>\<^verbatim>\<open>Flag(team, spawn_x, spawn_y)\<close> with \<^verbatim>\<open>__post_init__\<close>.\<close>

definition Flag :: "string \<Rightarrow> real \<Rightarrow> real \<Rightarrow> flag" where
  "Flag t sx sy =
     \<lparr>f_team = t, f_spawn_x = sx, f_spawn_y = sy, f_x = sx, f_y = sy,
      f_carrier = None, f_locked = None\<rparr>"

text \<open>\<^verbatim>\<open>class Game_State\<close>.\<close>

record game_state =
  players :: "(int \<times> player) list"
  flags :: "(string \<times> flag) list"
  scores :: "(string \<times> int) list"
  map_width :: int
  map_height :: int

subsection \<open>Contested actions: \<^verbatim>\<open>attempt_pickup\<close> and \<^verbatim>\<open>attempt_steal\<close>\<close>

text \<open>
  The body of the loop \<^verbatim>\<open>for flag in self.game.flags.values()\<close> of \<^verbatim>\<open>attempt_pickup\<close>,
  for the flag stored under key \<open>k\<close>. The player object is the one fetched before the loop;
  it stays in the dictionary, so reading it again sees the loop's earlier mutations.
\<close>

definition pickup_flag :: "int \<Rightarrow> string \<Rightarrow> game_state \<Rightarrow> game_state" where
  "pickup_flag i k g =
     (case (map_of (players g) i, map_of (flags g) k) of
        (Some pl, Some fl) \<Rightarrow>
          if f_team fl = p_team pl then g
          else if f_carrier fl \<noteq> None then g
          else
            let dx = p_x pl - f_x fl; dy = p_y pl - f_y fl in
            if dx * dx + dy * dy \<le> PICKUP_RADIUS * PICKUP_RADIUS then
              g\<lparr>players :=
                   AList.map_entry i
                     (\<lambda>p. let p1 = p\<lparr>p_red := False, p_blue := False\<rparr> in
                          if f_team fl = ''red'' then p1\<lparr>p_red := True\<rparr>
                          else p1\<lparr>p_blue := True\<rparr>)
                     (players g),
                 flags := AList.map_entry k (\<lambda>f. f\<lparr>f_carrier := Some i\<rparr>) (flags g)\<rparr>
            else g
      | _ \<Rightarrow> g)"

definition attempt_pickup :: "game_state \<Rightarrow> int \<Rightarrow> game_state" where
  "attempt_pickup g i =
     (case map_of (players g) i of
        None \<Rightarrow> g
      | Some _ \<Rightarrow> fold (pickup_flag i) (map fst (flags g)) g)"

text \<open>
  \<^verbatim>\<open>attempt_steal(attacker_pid, defender_pid, flag_team)\<close>; \<open>draw\<close> is the value that
  \<^verbatim>\<open>random.random()\<close> returns when the call is reached.
\<close>

definition attempt_steal :: "game_state \<Rightarrow> int \<Rightarrow> int \<Rightarrow> string \<Rightarrow> real \<Rightarrow> game_state" where
  "attempt_steal g a d t draw =
     (case map_of (flags g) t of
        None \<Rightarrow> g
      | Some fl \<Rightarrow>
          (case (map_of (players g) a, map_of (players g) d) of
             (Some attacker, Some defender) \<Rightarrow>
               if (t = ''red'' \<and> \<not> p_red defender) \<or> (t = ''blue'' \<and> \<not> p_blue defender) then g
               else if p_team attacker = p_team defender then g
               else if draw \<ge> STEAL_CHANCE then g
               else
                 g\<lparr>players :=
                      AList.map_entry a
                        (\<lambda>p. p\<lparr>p_red := (t = ''red''), p_blue := (t = ''blue'')\<rparr>)
                        (AList.map_entry d (\<lambda>p. p\<lparr>p_red := False, p_blue := False\<rparr>)
                           (players g)),
                    flags :=
                      AList.map_entry t
                        (\<lambda>f. f\<lparr>f_carrier := Some (p_pid attacker),
                               f_x := p_x attacker, f_y := p_y attacker\<rparr>)
                        (flags g)\<rparr>
           | _ \<Rightarrow> g))"

subsection \<open>Well-formed worlds\<close>

text \<open>
  What \<^verbatim>\<open>Server.__init__\<close>, \<^verbatim>\<open>_init_flags__\<close> and \<^verbatim>\<open>accept\<close> establish and no function
  changes: player identifiers are the dictionary keys, teams are \<^verbatim>\<open>"red"\<close> or \<^verbatim>\<open>"blue"\<close>,
  there is one flag per team stored under its team name, and the score table has the two
  team names as keys.
\<close>

definition wf_game :: "game_state \<Rightarrow> bool" where
  "wf_game g \<longleftrightarrow>
     distinct (map fst (players g)) \<and>
     (\<forall>(k, p) \<in> set (players g). p_pid p = k \<and> (p_team p = ''red'' \<or> p_team p = ''blue'')) \<and>
     map fst (flags g) = [''red'', ''blue''] \<and>
     (\<forall>(k, f) \<in> set (flags g). f_team f = k) \<and>
     map fst (scores g) = [''red'', ''blue'']"

text \<open>The flag a player of team \<open>t\<close> may pick up, and the indicator of a player for a flag.\<close>

definition opposing :: "string \<Rightarrow> string" where
  "opposing t = (if t = ''red'' then ''blue'' else ''red'')"

definition carries :: "player \<Rightarrow> string \<Rightarrow> bool" where
  "carries p t \<longleftrightarrow> (t = ''red'' \<and> p_red p) \<or> (t = ''blue'' \<and> p_blue p)"

subsection \<open>Messages\<close>

text \<open>
  What \<^verbatim>\<open>json.loads\<close> returns: \<^verbatim>\<open>None\<close>, a bool, an int, a float, a str, a list or a dict
  (an association list with distinct keys). \<open>truthy\<close> is Python's truth value of such an
  object; \<open>dict_get\<close> is \<^verbatim>\<open>dict.get(key)\<close>, which yields \<^verbatim>\<open>None\<close> for a missing key.
\<close>

datatype json =
    JNull
  | JBool bool
  | JInt int
  | JFloat real
  | JStr string
  | JArr "json list"
  | JObj "(string \<times> json) list"

fun truthy :: "json \<Rightarrow> bool" where
  "truthy JNull = False"
| "truthy (JBool b) = b"
| "truthy (JInt n) = (n \<noteq> 0)"
| "truthy (JFloat r) = (r \<noteq> 0)"
| "truthy (JStr s) = (s \<noteq> [])"
| "truthy (JArr xs) = (xs \<noteq> [])"
| "truthy (JObj kvs) = (kvs \<noteq> [])"

definition dict_get :: "(string \<times> json) list \<Rightarrow> string \<Rightarrow> json" where
  "dict_get m k = (case map_of m k of None \<Rightarrow> JNull | Some v \<Rightarrow> v)"

text \<open>The exceptions the modelled code can raise.\<close>

datatype error = KeyError | AttributeError | TypeError | ValueError

subsection \<open>Simulation engine: \<^verbatim>\<open>handle_inputs\<close>, \<^verbatim>\<open>update_flags\<close>\<close>

text \<open>
  The key tests and the clamping of \<^verbatim>\<open>handle_inputs\<close>, applied to the player object.
  The arguments are the truth values of \<^verbatim>\<open>UP\<close>, \<^verbatim>\<open>DOWN\<close>, \<^verbatim>\<open>LEFT\<close>, \<^verbatim>\<open>RIGHT\<close>.
\<close>

definition apply_move :: "bool \<Rightarrow> bool \<Rightarrow> bool \<Rightarrow> bool \<Rightarrow> int \<Rightarrow> int \<Rightarrow> player \<Rightarrow> player" where
  "apply_move UP DOWN LEFT RIGHT w h p =
     (let speed = 6;
          p1 = (if UP \<and> \<not> DOWN then p\<lparr>p_y := p_y p - speed\<rparr> else p);
          p2 = (if DOWN \<and> \<not> UP then p1\<lparr>p_y := p_y p1 + speed\<rparr> else p1);
          p3 = (if LEFT \<and> \<not> RIGHT then p2\<lparr>p_x := p_x p2 - speed\<rparr> else p2);
          p4 = (if RIGHT \<and> \<not> LEFT then p3\<lparr>p_x := p_x p3 + speed\<rparr> else p3);
          p5 = p4\<lparr>p_x := max 0 (min (of_int w) (p_x p4))\<rparr>
      in p5\<lparr>p_y := max 0 (min (of_int h) (p_y p5))\<rparr>)"

text \<open>
  \<^verbatim>\<open>handle_inputs(pid, message)\<close>. \<^verbatim>\<open>message.get("move", {})\<close> is the value stored under
  \<^verbatim>\<open>"move"\<close>, or an empty dict when the key is missing; \<^verbatim>\<open>move.get\<close> raises
  \<^verbatim>\<open>AttributeError\<close> when that value is not a dict, before any field is written.
\<close>

definition handle_inputs :: "game_state \<Rightarrow> int \<Rightarrow> (string \<times> json) list \<Rightarrow> error + game_state" where
  "handle_inputs g i message =
     (case map_of (players g) i of
        None \<Rightarrow> Inr g
      | Some _ \<Rightarrow>
          if dict_get message ''type'' = JStr ''input'' then
            (case (case map_of message ''move'' of None \<Rightarrow> JObj [] | Some v \<Rightarrow> v) of
               JObj move \<Rightarrow>
                 Inr (g\<lparr>players :=
                          AList.map_entry i
                            (apply_move (truthy (dict_get move ''up''))
                               (truthy (dict_get move ''down''))
                               (truthy (dict_get move ''left''))
                               (truthy (dict_get move ''right''))
                               (map_width g) (map_height g))
                            (players g)\<rparr>)
             | _ \<Rightarrow> Inl AttributeError)
          else Inr g)"

text \<open>\<^verbatim>\<open>update_flags\<close>: every flag object is visited once; players are only read.\<close>

definition update_flags :: "game_state \<Rightarrow> game_state" where
  "update_flags g =
     g\<lparr>flags :=
         AList.map_ran
           (\<lambda>_ f. case f_carrier f of
                    None \<Rightarrow> f
                  | Some c \<Rightarrow>
                      (case map_of (players g) c of
                         None \<Rightarrow> f\<lparr>f_carrier := None, f_x := f_spawn_x f, f_y := f_spawn_y f\<rparr>
                       | Some pl \<Rightarrow> f\<lparr>f_x := p_x pl, f_y := p_y pl\<rparr>))
           (flags g)\<rparr>"

subsection \<open>The server object\<close>

text \<open>
  A snapshot as \<^verbatim>\<open>serialize\<close> builds it: per player \<^verbatim>\<open>pid, x, y, team, red, blue\<close>, per flag
  \<^verbatim>\<open>team, colour, x, y, carrier\<close>, and the score table.
\<close>

record snapshot =
  s_players :: "(int \<times> real \<times> real \<times> string \<times> bool \<times> bool) list"
  s_flags :: "(string \<times> string \<times> real \<times> real \<times> int option) list"
  s_scores :: "(string \<times> int) list"

datatype out_msg =
    Connect int string
  | Update snapshot
  | Over string

text \<open>
  \<^verbatim>\<open>class Server\<close>. A client socket is identified by the player identifier it was accepted
  for, so \<open>client_sockets\<close> and \<open>client_threads\<close> list the keys of the two dictionaries in
  insertion order. \<open>outbox\<close> records every \<^verbatim>\<open>send_json\<close> round in order: the sockets written
  to and the message. \<open>closed_sockets\<close> records the sockets \<^verbatim>\<open>remove_player\<close> closed.
\<close>

record server =
  game :: game_state
  next_player_id :: int
  client_sockets :: "int list"
  input_queues :: "(int \<times> (string \<times> json) list list) list"
  client_threads :: "int list"
  running :: bool
  outbox :: "(int list \<times> out_msg) list"
  closed_sockets :: "int list"

text \<open>\<^verbatim>\<open>Game_State()\<close>, \<^verbatim>\<open>_init_flags__\<close> and \<^verbatim>\<open>Server.__init__\<close>.\<close>

definition new_Game_State :: game_state where
  "new_Game_State =
     \<lparr>players = [], flags = [], scores = [(''red'', 0), (''blue'', 0)],
      map_width = MAP_WIDTH, map_height = MAP_HEIGHT\<rparr>"

definition init_flags :: "game_state \<Rightarrow> game_state" where
  "init_flags g =
     (let left_x = 50;
          right_x = of_int (map_width g - 50);
          mid_y = of_int (map_height g) / 2
      in g\<lparr>flags :=
             AList.update ''blue'' (Flag ''blue'' right_x mid_y)
               (AList.update ''red'' (Flag ''red'' left_x mid_y) (flags g))\<rparr>)"

definition init_server :: server where
  "init_server =
     \<lparr>game = init_flags new_Game_State, next_player_id = 1, client_sockets = [],
      input_queues = [], client_threads = [], running = True, outbox = [],
      closed_sockets = []\<rparr>"

text \<open>
  One successful \<^verbatim>\<open>listener.accept()\<close> of the loop in \<^verbatim>\<open>accept\<close>. The identifier is
  consumed before the spawn point is computed; a zero modulus raises inside the
  \<^verbatim>\<open>try\<close>, whose handler only prints.
\<close>

definition dict_add_key :: "int \<Rightarrow> int list \<Rightarrow> int list" where
  "dict_add_key k ks = (if k \<in> set ks then ks else ks @ [k])"

definition accept :: "server \<Rightarrow> server" where
  "accept s =
     (let pid = next_player_id s;
          s1 = s\<lparr>next_player_id := pid + 1\<rparr>;
          g = game s;
          team = (if pid mod 2 = 1 then ''red'' else ''blue'');
          spawn_x = (if team = ''red'' then 120 else map_width g - 120)
      in if map_height g - 200 = 0 then s1
         else
           let spawn_y = 100 + (pid * 37) mod (map_height g - 200);
               pl = \<lparr>p_pid = pid, p_x = of_int spawn_x, p_y = of_int spawn_y,
                     p_team = team, p_red = False, p_blue = False\<rparr>
           in s1\<lparr>game := g\<lparr>players := AList.update pid pl (players g)\<rparr>,
                 client_sockets := dict_add_key pid (client_sockets s),
                 input_queues := AList.update pid [] (input_queues s),
                 client_threads := dict_add_key pid (client_threads s),
                 outbox := outbox s @ [([pid], Connect pid team)]\<rparr>)"

text \<open>
  \<^verbatim>\<open>serialize\<close> and \<^verbatim>\<open>broadcast\<close>. \<^verbatim>\<open>send_json\<close> catches every exception of the send
  itself, so the handler in \<^verbatim>\<open>broadcast\<close> that would call \<^verbatim>\<open>remove_player\<close> is never
  entered: a broadcast only writes to the sockets.
\<close>

definition serialize :: "game_state \<Rightarrow> snapshot" where
  "serialize g =
     \<lparr>s_players = map (\<lambda>(pid, p). (pid, p_x p, p_y p, p_team p, p_red p, p_blue p)) (players g),
      s_flags = map (\<lambda>(fname, f). (f_team f, f_team f, f_x f, f_y f, f_carrier f)) (flags g),
      s_scores = scores g\<rparr>"

definition broadcast :: "server \<Rightarrow> out_msg \<Rightarrow> server" where
  "broadcast s obj = s\<lparr>outbox := outbox s @ [(client_sockets s, obj)]\<rparr>"

text \<open>The reset both \<^verbatim>\<open>check_score\<close> and \<^verbatim>\<open>remove_player\<close> apply to a flag object.\<close>

definition reset_flag :: "flag \<Rightarrow> flag" where
  "reset_flag f =
     f\<lparr>f_carrier := None, f_locked := Some False, f_x := f_spawn_x f, f_y := f_spawn_y f\<rparr>"

text \<open>
  \<^verbatim>\<open>check_score\<close>: the loop over \<^verbatim>\<open>list(self.game.players.items())\<close>. The two dictionary
  subscripts raise \<^verbatim>\<open>KeyError\<close> on a missing key, before anything is written. The loop
  ends at the \<^verbatim>\<open>return\<close> after the first player that scores.
\<close>

definition carried_flags :: "player \<Rightarrow> string list" where
  "carried_flags pl =
     (if p_red pl \<and> p_team pl \<noteq> ''red'' then [''red''] else []) @
     (if p_blue pl \<and> p_team pl \<noteq> ''blue'' then [''blue''] else [])"

text \<open>
  The branch of \<^verbatim>\<open>check_score\<close> that scores, from the assignment of the new score to
  the \<^verbatim>\<open>return\<close>: the score is stored, every flag and every player is reset, and a
  winning score is announced and stops the game loop.
\<close>

definition score_and_reset :: "server \<Rightarrow> string \<Rightarrow> int \<Rightarrow> server" where
  "score_and_reset s scoring_team new_score =
     (let g = game s;
          s1 = s\<lparr>game :=
                 g\<lparr>scores := AList.update scoring_team new_score (scores g),
                   flags := AList.map_ran (\<lambda>_. reset_flag) (flags g),
                   players :=
                     AList.map_ran (\<lambda>_ p. p\<lparr>p_red := False, p_blue := False\<rparr>) (players g)\<rparr>\<rparr>
      in if new_score \<ge> SCORE_TO_WIN
         then (broadcast s1 (Over scoring_team))\<lparr>running := False\<rparr>
         else s1)"

fun check_score_loop :: "server \<Rightarrow> (int \<times> player) list \<Rightarrow> error + server" where
  "check_score_loop s [] = Inr s"
| "check_score_loop s ((i, pl) # rest) =
     (if carried_flags pl = [] then check_score_loop s rest
      else
        let base_flag = (if p_team pl = ''red'' then ''red'' else ''blue'') in
        case map_of (flags (game s)) base_flag of
          None \<Rightarrow> Inl KeyError
        | Some bf \<Rightarrow>
            let dx = p_x pl - f_spawn_x bf; dy = p_y pl - f_spawn_y bf in
            if dx * dx + dy * dy \<le> BASE_RADIUS * BASE_RADIUS then
              (let scoring_team = p_team pl in
               case map_of (scores (game s)) scoring_team of
                 None \<Rightarrow> Inl KeyError
               | Some sc \<Rightarrow>
                   Inr (score_and_reset s scoring_team (sc + int (length (carried_flags pl)))))
            else check_score_loop s rest)"

definition check_score :: "server \<Rightarrow> error + server" where
  "check_score s = check_score_loop s (players (game s))"

text \<open>\<^verbatim>\<open>remove_player(pid)\<close>.\<close>

definition remove_player :: "server \<Rightarrow> int \<Rightarrow> server" where
  "remove_player s i =
     (let g = game s;
          player = map_of (players g) i;
          s1 = s\<lparr>client_sockets := removeAll i (client_sockets s),
                 input_queues := AList.delete i (input_queues s),
                 client_threads := removeAll i (client_threads s),
                 game := g\<lparr>players := AList.delete i (players g)\<rparr>,
                 closed_sockets :=
                   (if i \<in> set (client_sockets s) then closed_sockets s @ [i]
                    else closed_sockets s)\<rparr>
      in case player of
           None \<Rightarrow> s1
         | Some pl \<Rightarrow>
             let s2 = (if p_red pl
                       then s1\<lparr>game := (game s1)\<lparr>flags :=
                              AList.map_entry ''red'' reset_flag (flags (game s1))\<rparr>\<rparr>
                       else s1)
             in if p_blue pl
                then s2\<lparr>game := (game s2)\<lparr>flags :=
                       AList.map_entry ''blue'' reset_flag (flags (game s2))\<rparr>\<rparr>
                else s2)"

text \<open>
  \<^verbatim>\<open>process_inputs\<close>: every queue is drained in order; an exception of \<^verbatim>\<open>handle_inputs\<close>
  is printed and the next message is taken.
\<close>

definition drain :: "int \<Rightarrow> (string \<times> json) list list \<Rightarrow> game_state \<Rightarrow> game_state" where
  "drain i msgs g =
     fold (\<lambda>m g. case handle_inputs g i m of Inl _ \<Rightarrow> g | Inr g' \<Rightarrow> g') msgs g"

definition process_inputs :: "server \<Rightarrow> server" where
  "process_inputs s =
     s\<lparr>game := fold (\<lambda>(i, q). drain i q) (input_queues s) (game s),
       input_queues := AList.map_ran (\<lambda>_ _. []) (input_queues s)\<rparr>"

text \<open>
  One iteration of the \<^verbatim>\<open>while self.running\<close> loop of \<^verbatim>\<open>game_loop\<close>. An exception of
  \<^verbatim>\<open>check_score\<close> is not caught by the loop.
\<close>

definition tick :: "server \<Rightarrow> error + server" where
  "tick s =
     (let s1 = process_inputs s;
          s2 = s1\<lparr>game := update_flags (game s1)\<rparr>
      in case check_score s2 of
           Inl e \<Rightarrow> Inl e
         | Inr s3 \<Rightarrow> Inr (broadcast s3 (Update (serialize (game s3)))))"

subsection \<open>The per-connection receive path: \<^verbatim>\<open>client_listener\<close>\<close>

text \<open>
  \<^verbatim>\<open>attempt_steal\<close> as the listener calls it, with the values of \<^verbatim>\<open>msg.get("target")\<close> and
  \<^verbatim>\<open>msg.get("flag")\<close> as they come out of the parser. A list or a dict is unhashable, so
  the dictionary lookup raises \<^verbatim>\<open>TypeError\<close>; a key that is no string finds no flag; a
  target finds a player when it equals an integer key (\<^verbatim>\<open>True == 1\<close>, \<^verbatim>\<open>2.0 == 2\<close>).
  Both players are looked up before either is tested.
\<close>

definition pid_key :: "json \<Rightarrow> error + int option" where
  "pid_key v =
     (case v of
        JInt n \<Rightarrow> Inr (Some n)
      | JBool b \<Rightarrow> Inr (Some (if b then 1 else 0))
      | JFloat r \<Rightarrow> Inr (if r = of_int \<lfloor>r\<rfloor> then Some \<lfloor>r\<rfloor> else None)
      | JArr _ \<Rightarrow> Inl TypeError
      | JObj _ \<Rightarrow> Inl TypeError
      | _ \<Rightarrow> Inr None)"

definition steal_request :: "game_state \<Rightarrow> int \<Rightarrow> json \<Rightarrow> json \<Rightarrow> real \<Rightarrow> error + game_state" where
  "steal_request g i target_pid flag_team draw =
     (case flag_team of
        JArr _ \<Rightarrow> Inl TypeError
      | JObj _ \<Rightarrow> Inl TypeError
      | JStr t \<Rightarrow>
          (case map_of (flags g) t of
             None \<Rightarrow> Inr g
           | Some _ \<Rightarrow>
               (case pid_key target_pid of
                  Inl e \<Rightarrow> Inl e
                | Inr None \<Rightarrow> Inr g
                | Inr (Some d) \<Rightarrow> Inr (attempt_steal g i d t draw)))
      | _ \<Rightarrow> Inr g)"

text \<open>
  The state of one listener thread: the server it shares, its text buffer, and how many
  steal requests it has dispatched (the index of the next random sample).
\<close>

record listener =
  l_server :: server
  l_buffer :: string
  l_steals :: nat

text \<open>
  \<^verbatim>\<open>q.put(msg)\<close> on the queue created for the connection. After the queue has been dropped
  from \<^verbatim>\<open>input_queues\<close> nothing reads it any more, so the put has no effect then.
\<close>

definition queue_put :: "int \<Rightarrow> (string \<times> json) list \<Rightarrow> server \<Rightarrow> server" where
  "queue_put i m s = s\<lparr>input_queues := AList.map_entry i (\<lambda>q. q @ [m]) (input_queues s)\<rparr>"

definition put_disconnect :: "int \<Rightarrow> listener \<Rightarrow> listener" where
  "put_disconnect i st =
     st\<lparr>l_server := queue_put i [(''type'', JStr ''disconnect'')] (l_server st)\<rparr>"

definition newline :: char where "newline = CHR 0x0A"

text \<open>
  The inner loop \<^verbatim>\<open>while "\n" in buffer\<close>. \<^verbatim>\<open>json.loads\<close> is the library's parser, a
  parameter here: \<open>None\<close> is its \<^verbatim>\<open>JSONDecodeError\<close>. \<^verbatim>\<open>msg.get\<close> raises
  \<^verbatim>\<open>AttributeError\<close> when the parsed value is no dict. The result is the exception that
  left the loop, if any, and the state at that point.
\<close>

function handle_frames ::
  "(string \<Rightarrow> json option) \<Rightarrow> (nat \<Rightarrow> real) \<Rightarrow> int \<Rightarrow> listener \<Rightarrow> error option \<times> listener" where
  "handle_frames loads rnd i st =
     (if newline \<in> set (l_buffer st) then
        let line = takeWhile (\<lambda>c. c \<noteq> newline) (l_buffer st);
            st1 = st\<lparr>l_buffer := tl (dropWhile (\<lambda>c. c \<noteq> newline) (l_buffer st))\<rparr>
        in case loads line of
             None \<Rightarrow> (Some ValueError, st1)
           | Some (JObj msg) \<Rightarrow>
               let mtype = dict_get msg ''type''; s = l_server st1 in
               if mtype = JStr ''pickup'' then
                 handle_frames loads rnd i
                   (st1\<lparr>l_server := s\<lparr>game := attempt_pickup (game s) i\<rparr>\<rparr>)
               else if mtype = JStr ''steal'' then
                 (case steal_request (game s) i (dict_get msg ''target'') (dict_get msg ''flag'')
                         (rnd (l_steals st1)) of
                    Inl e \<Rightarrow> (Some e, st1\<lparr>l_steals := Suc (l_steals st1)\<rparr>)
                  | Inr g \<Rightarrow>
                      handle_frames loads rnd i
                        (st1\<lparr>l_server := s\<lparr>game := g\<rparr>, l_steals := Suc (l_steals st1)\<rparr>))
               else handle_frames loads rnd i (st1\<lparr>l_server := queue_put i msg s\<rparr>)
           | Some _ \<Rightarrow> (Some AttributeError, st1)
      else (None, st))"
  by pat_completeness auto
termination
proof (relation "measure (\<lambda>(loads, rnd, i, st). length (l_buffer st))", goal_cases)
  have shorter: "length (dropWhile (\<lambda>c. c \<noteq> newline) b) - Suc 0 < length b"
    if "newline \<in> set b" for b
  proof -
    from that have "dropWhile (\<lambda>c. c \<noteq> newline) b \<noteq> []"
      by (simp add: dropWhile_eq_Nil_conv)
    then have "length (dropWhile (\<lambda>c. c \<noteq> newline) b) - Suc 0
                 < length (dropWhile (\<lambda>c. c \<noteq> newline) b)"
      by simp
    also have "\<dots> \<le> length b" by (rule length_dropWhile_le)
    finally show ?thesis .
  qed
  {
    case 1
    show ?case by simp
  }
  {
    case 2
    then show ?case using shorter by simp
  }
  {
    case 3
    then show ?case using shorter by simp
  }
  {
    case 4
    then show ?case using shorter by simp
  }
qed

text \<open>
  \<^verbatim>\<open>client_listener\<close>, run on the results of its successive \<^verbatim>\<open>sock.recv\<close> calls: a raised
  exception, or the bytes read (none at end of stream). \<open>decode\<close> is \<^verbatim>\<open>bytes.decode("utf-8")\<close>,
  \<open>None\<close> when it raises. Every exception that leaves the loop reaches the outer handler,
  which puts a disconnect message and lets the method return. \<open>Blocked\<close>: the thread waits
  in \<^verbatim>\<open>recv\<close> for more input; \<open>Ended\<close>: the method has returned.
\<close>

datatype recv_result = Recv_raises | Recv_bytes string

datatype listener_status = Blocked | Ended

fun client_listener ::
  "(string \<Rightarrow> string option) \<Rightarrow> (string \<Rightarrow> json option) \<Rightarrow> (nat \<Rightarrow> real) \<Rightarrow> int \<Rightarrow>
   recv_result list \<Rightarrow> listener \<Rightarrow> listener \<times> listener_status" where
  "client_listener decode loads rnd i [] st =
     (if running (l_server st) then (st, Blocked) else (st, Ended))"
| "client_listener decode loads rnd i (r # rs) st =
     (if \<not> running (l_server st) then (st, Ended)
      else
        case r of
          Recv_raises \<Rightarrow> (put_disconnect i st, Ended)
        | Recv_bytes data \<Rightarrow>
            if data = [] then (put_disconnect i st, Ended)
            else
              (case decode data of
                 None \<Rightarrow> (put_disconnect i st, Ended)
               | Some text \<Rightarrow>
                   (case handle_frames loads rnd i (st\<lparr>l_buffer := l_buffer st @ text\<rparr>) of
                      (Some e, st') \<Rightarrow> (put_disconnect i st', Ended)
                    | (None, st') \<Rightarrow> client_listener decode loads rnd i rs st')))"

subsection \<open>Runs of the server\<close>

text \<open>
  The threads of the server interleave; a run is a sequence of their steps. The accept
  thread accepts a connection; a listener thread calls \<^verbatim>\<open>attempt_pickup\<close> or
  \<^verbatim>\<open>attempt_steal\<close> or puts a message into its queue; the game loop performs an
  iteration while \<^verbatim>\<open>self.running\<close> holds and has returned otherwise; a player is removed.
  An exception in an iteration of the game loop ends the run.
\<close>

datatype event =
    EvAccept
  | EvTick
  | EvPickup int
  | EvSteal int int string real
  | EvPut int "(string \<times> json) list"
  | EvRemove int

fun step :: "server \<Rightarrow> event \<Rightarrow> error + server" where
  "step s EvAccept = Inr (accept s)"
| "step s EvTick = (if running s then tick s else Inr s)"
| "step s (EvPickup i) = Inr (s\<lparr>game := attempt_pickup (game s) i\<rparr>)"
| "step s (EvSteal a d t draw) = Inr (s\<lparr>game := attempt_steal (game s) a d t draw\<rparr>)"
| "step s (EvPut i m) = Inr (queue_put i m s)"
| "step s (EvRemove i) = Inr (remove_player s i)"

fun run :: "server \<Rightarrow> event list \<Rightarrow> error + server" where
  "run s [] = Inr s"
| "run s (e # es) = (case step s e of Inl err \<Rightarrow> Inl err | Inr s' \<Rightarrow> run s' es)"

subsection \<open>Predicates used to state the properties\<close>

text \<open>
  Carrier consistency: a flag's \<^verbatim>\<open>carrier\<close> names a player exactly when that player's
  indicator for the flag's team is set, and a carrier that is set names a player of the
  world.
\<close>

definition carrier_consistent :: "game_state \<Rightarrow> bool" where
  "carrier_consistent g \<longleftrightarrow>
     (\<forall>(k, f) \<in> set (flags g). \<forall>(i, p) \<in> set (players g).
        (f_carrier f = Some i) = carries p (f_team f)) \<and>
     (\<forall>(k, f) \<in> set (flags g).
        case f_carrier f of None \<Rightarrow> True | Some c \<Rightarrow> c \<in> fst ` set (players g))"

text \<open>The squared distance between two players of the world, when both exist.\<close>

definition player_dist_sq :: "game_state \<Rightarrow> int \<Rightarrow> int \<Rightarrow> real option" where
  "player_dist_sq g a d =
     (case (map_of (players g) a, map_of (players g) d) of
        (Some pa, Some pd) \<Rightarrow>
          Some ((p_x pa - p_x pd) * (p_x pa - p_x pd) + (p_y pa - p_y pd) * (p_y pa - p_y pd))
      | _ \<Rightarrow> None)"

text \<open>A player's position lies on the map.\<close>

definition in_bounds :: "game_state \<Rightarrow> player \<Rightarrow> bool" where
  "in_bounds g p \<longleftrightarrow>
     0 \<le> p_x p \<and> p_x p \<le> of_int (map_width g) \<and> 0 \<le> p_y p \<and> p_y p \<le> of_int (map_height g)"

text \<open>
  The score of a team, and the game-over rounds among the rounds of messages sent: each
  with the sockets it was written to.
\<close>

definition score_of :: "server \<Rightarrow> string \<Rightarrow> int option" where
  "score_of s t = map_of (scores (game s)) t"

fun is_over :: "out_msg \<Rightarrow> bool" where
  "is_over (Over _) = True"
| "is_over _ = False"

definition over_rounds :: "server \<Rightarrow> (int list \<times> out_msg) list" where
  "over_rounds s = filter (\<lambda>(r, m). is_over m) (outbox s)"

text \<open>No player has both indicators set.\<close>

definition one_indicator :: "game_state \<Rightarrow> bool" where
  "one_indicator g \<longleftrightarrow> (\<forall>(i, p) \<in> set (players g). \<not> (p_red p \<and> p_blue p))"

text \<open>
  The invariant of a run: the world is well formed, there is a client socket for exactly
  the players of the world, no player has both indicators set, and no score is negative;
  while the game loop runs, no game-over message has been sent and every score is below
  the threshold; once it has stopped, exactly one game-over round has been sent, to at
  least one socket, and the team it names is the one team whose score has reached the
  threshold.
\<close>

definition server_inv :: "server \<Rightarrow> bool" where
  "server_inv s \<longleftrightarrow>
     wf_game (game s) \<and>
     client_sockets s = map fst (players (game s)) \<and>
     one_indicator (game s) \<and>
     (\<forall>(t, n) \<in> set (scores (game s)). 0 \<le> n) \<and>
     (if running s
      then over_rounds s = [] \<and> (\<forall>(t, n) \<in> set (scores (game s)). n < SCORE_TO_WIN)
      else (\<exists>r w. r \<noteq> [] \<and> over_rounds s = [(r, Over w)] \<and>
                (\<forall>(t, n) \<in> set (scores (game s)). (SCORE_TO_WIN \<le> n) = (t = w))))"

text \<open>No score of the table has decreased from \<open>s\<close> to \<open>s'\<close>.\<close>

definition scores_mono :: "server \<Rightarrow> server \<Rightarrow> bool" where
  "scores_mono s s' \<longleftrightarrow>
     (\<forall>t n. score_of s t = Some n \<longrightarrow> (\<exists>n'. score_of s' t = Some n' \<and> n \<le> n'))"

text \<open>The condition under which \<^verbatim>\<open>check_score\<close> lets a player score.\<close>

definition can_score :: "game_state \<Rightarrow> player \<Rightarrow> bool" where
  "can_score g pl \<longleftrightarrow>
     carried_flags pl \<noteq> [] \<and>
     (case map_of (flags g) (if p_team pl = ''red'' then ''red'' else ''blue'') of
        None \<Rightarrow> False
      | Some bf \<Rightarrow>
          (p_x pl - f_spawn_x bf) * (p_x pl - f_spawn_x bf) +
          (p_y pl - f_spawn_y bf) * (p_y pl - f_spawn_y bf) \<le> BASE_RADIUS * BASE_RADIUS)"

subsection \<open>Example worlds\<close>

text \<open>
  Two connected players, the first of team red, the second of team blue, placed on the
  map; the flags are at their spawn points \<open>(50, 300)\<close> and \<open>(950, 300)\<close>.
\<close>

definition mk_player :: "int \<Rightarrow> string \<Rightarrow> real \<Rightarrow> real \<Rightarrow> player" where
  "mk_player i t px py =
     \<lparr>p_pid = i, p_x = px, p_y = py, p_team = t, p_red = False, p_blue = False\<rparr>"

definition world :: "(int \<times> player) list \<Rightarrow> game_state" where
  "world ps = (init_flags new_Game_State)\<lparr>players := ps\<rparr>"

text \<open>Player 1 stands exactly 30 units from the blue flag.\<close>

definition ex_boundary :: game_state where
  "ex_boundary = world [(1, mk_player 1 ''red'' 920 300), (2, mk_player 2 ''blue'' 880 174)]"

text \<open>Player 1 stands on the blue flag, player 2 on the red flag.\<close>

definition ex_start :: game_state where
  "ex_start = world [(1, mk_player 1 ''red'' 950 300), (2, mk_player 2 ''blue'' 50 300)]"

text \<open>Player 2 has picked up the red flag; then player 1 has stolen it from player 2.\<close>

definition ex_picked :: game_state where
  "ex_picked = attempt_pickup ex_start 2"

definition ex_stolen :: game_state where
  "ex_stolen = attempt_steal ex_picked 1 2 ''red'' 0"

text \<open>
  Then player 1 has picked up the blue flag as well: the red flag's carrier still names
  player 1, whose red indicator the pickup has cleared.
\<close>

definition ex_stale :: game_state where
  "ex_stale = attempt_pickup ex_stolen 1"

text \<open>Both players have picked up the flag of the other team.\<close>

definition ex_both :: game_state where
  "ex_both = attempt_pickup (attempt_pickup ex_start 1) 2"

text \<open>Player 1 at its spawn point, player 2 on the red flag, which it has picked up.\<close>

definition ex_far :: game_state where
  "ex_far =
     attempt_pickup (world [(1, mk_player 1 ''red'' 120 137), (2, mk_player 2 ''blue'' 50 300)]) 2"

text \<open>
  A server whose world is \<open>g\<close>, with a socket, a queue and a thread for every player.
\<close>

definition server_of :: "game_state \<Rightarrow> server" where
  "server_of g =
     init_server\<lparr>game := g,
       client_sockets := map fst (players g),
       input_queues := map (\<lambda>(i, _). (i, [])) (players g),
       client_threads := map fst (players g)\<rparr>"

text \<open>
  Both players can score at once: player 1 (red) stands on its base with the blue flag,
  player 2 (blue) stands on its base with the red flag.
\<close>

definition ex_two_scorers :: server where
  "ex_two_scorers =
     server_of
       ((init_flags new_Game_State)
          \<lparr>players := [(1, (mk_player 1 ''red'' 50 300)\<lparr>p_blue := True\<rparr>),
                       (2, (mk_player 2 ''blue'' 950 300)\<lparr>p_red := True\<rparr>)],
           flags :=
             [(''red'', (Flag ''red'' 50 300)\<lparr>f_x := 950, f_carrier := Some 2\<rparr>),
              (''blue'', (Flag ''blue'' 950 300)\<lparr>f_x := 50, f_carrier := Some 1\<rparr>)]\<rparr>)"

text \<open>
  The frames used in the examples of the receive path, and \<^verbatim>\<open>json.loads\<close> on them: the
  line \<^verbatim>\<open>{\<close> is no JSON text, and a pickup request parses to a dict with one key.
  The stand-in is meant for these two lines only.
\<close>

definition pickup_line :: string where
  "pickup_line = ''{'' @ [CHR 0x22] @ ''type'' @ [CHR 0x22] @ '': '' @ [CHR 0x22] @ ''pickup'' @
     [CHR 0x22] @ ''}''"

definition loads_ex :: "string \<Rightarrow> json option" where
  "loads_ex l = (if l = pickup_line then Some (JObj [(''type'', JStr ''pickup'')]) else None)"

text \<open>\<^verbatim>\<open>bytes.decode("utf-8")\<close> on ASCII bytes, and a source of random samples that are all \<open>0\<close>.\<close>

definition ascii_decode :: "string \<Rightarrow> string option" where
  "ascii_decode b = Some b"

definition zero_draws :: "nat \<Rightarrow> real" where
  "zero_draws n = 0"

text \<open>An input message: right, up and down are held.\<close>

definition ex_input :: "(string \<times> json) list" where
  "ex_input =
     [(''type'', JStr ''input''),
      (''move'', JObj [(''up'', JBool True), (''down'', JBool True), (''left'', JBool False),
                       (''right'', JBool True)])]"

definition ex_listener :: listener where
  "ex_listener = \<lparr>l_server = server_of ex_boundary, l_buffer = [], l_steals = 0\<rparr>"

text \<open>
  A complete game. Three clients connect: players 1 and 3 are red, player 2 is blue.
  Player 1 walks to the red base and player 3 to the blue flag. In every round player 3
  picks up the blue flag, player 2 steals it from player 3, player 1 steals it from
  player 2, and the next iteration of the game loop lets player 1 score. \<open>ex_before_win\<close>
  ends before the iteration in which red scores its fifth point, \<open>ex_game\<close> after it;
  \<open>ex_after\<close> are steps of the other threads and of the game loop after that.
\<close>

definition move_msg :: "string list \<Rightarrow> (string \<times> json) list" where
  "move_msg keys = [(''type'', JStr ''input''), (''move'', JObj (map (\<lambda>k. (k, JBool True)) keys))]"

definition ex_round :: "event list" where
  "ex_round = [EvPickup 3, EvSteal 2 3 ''blue'' 0, EvSteal 1 2 ''blue'' 0, EvTick]"

definition ex_walk :: "event list" where
  "ex_walk =
     [EvAccept, EvAccept, EvAccept] @
     replicate 12 (EvPut 1 (move_msg [''left'', ''down''])) @
     replicate 7 (EvPut 1 (move_msg [''down''])) @
     replicate 13 (EvPut 3 (move_msg [''right'', ''down''])) @
     replicate 121 (EvPut 3 (move_msg [''right''])) @
     [EvTick]"

definition ex_before_win :: "event list" where
  "ex_before_win =
     ex_walk @ ex_round @ ex_round @ ex_round @ ex_round @
     [EvPickup 3, EvSteal 2 3 ''blue'' 0, EvSteal 1 2 ''blue'' 0]"

definition ex_game :: "event list" where
  "ex_game = ex_before_win @ [EvTick]"

definition ex_after :: "event list" where
  "ex_after = [EvPickup 3, EvTick, EvSteal 2 3 ''blue'' 0, EvAccept, EvTick]"

section \<open>Verification\<close>

subsection \<open>Evaluation of the example worlds\<close>

lemmas const_defs = SCORE_TO_WIN_def PICKUP_RADIUS_def STEAL_CHANCE_def BASE_RADIUS_def
  MAP_WIDTH_def MAP_HEIGHT_def

lemmas world_defs = world_def mk_player_def init_flags_def new_Game_State_def Flag_def
  const_defs

lemma ex_boundary_eq: "ex_boundary =
  \<lparr>players = [(1, \<lparr>p_pid = 1, p_x = 920, p_y = 300, p_team = ''red'', p_red = False, p_blue = False\<rparr>),
              (2, \<lparr>p_pid = 2, p_x = 880, p_y = 174, p_team = ''blue'', p_red = False, p_blue = False\<rparr>)],
   flags = [(''red'', \<lparr>f_team = ''red'', f_spawn_x = 50, f_spawn_y = 300, f_x = 50, f_y = 300, f_carrier = None, f_locked = None\<rparr>),
            (''blue'', \<lparr>f_team = ''blue'', f_spawn_x = 950, f_spawn_y = 300, f_x = 950, f_y = 300, f_carrier = None, f_locked = None\<rparr>)],
   scores = [(''red'', 0), (''blue'', 0)], map_width = 1000, map_height = 600\<rparr>"
  by (simp add: ex_boundary_def world_defs)

lemma ex_start_eq: "ex_start =
  \<lparr>players = [(1, \<lparr>p_pid = 1, p_x = 950, p_y = 300, p_team = ''red'', p_red = False, p_blue = False\<rparr>),
              (2, \<lparr>p_pid = 2, p_x = 50, p_y = 300, p_team = ''blue'', p_red = False, p_blue = False\<rparr>)],
   flags = [(''red'', \<lparr>f_team = ''red'', f_spawn_x = 50, f_spawn_y = 300, f_x = 50, f_y = 300, f_carrier = None, f_locked = None\<rparr>),
            (''blue'', \<lparr>f_team = ''blue'', f_spawn_x = 950, f_spawn_y = 300, f_x = 950, f_y = 300, f_carrier = None, f_locked = None\<rparr>)],
   scores = [(''red'', 0), (''blue'', 0)], map_width = 1000, map_height = 600\<rparr>"
  by (simp add: ex_start_def world_defs)

lemma ex_picked_eq: "ex_picked =
  \<lparr>players = [(1, \<lparr>p_pid = 1, p_x = 950, p_y = 300, p_team = ''red'', p_red = False, p_blue = False\<rparr>),
              (2, \<lparr>p_pid = 2, p_x = 50, p_y = 300, p_team = ''blue'', p_red = True, p_blue = False\<rparr>)],
   flags = [(''red'', \<lparr>f_team = ''red'', f_spawn_x = 50, f_spawn_y = 300, f_x = 50, f_y = 300, f_carrier = Some 2, f_locked = None\<rparr>),
            (''blue'', \<lparr>f_team = ''blue'', f_spawn_x = 950, f_spawn_y = 300, f_x = 950, f_y = 300, f_carrier = None, f_locked = None\<rparr>)],
   scores = [(''red'', 0), (''blue'', 0)], map_width = 1000, map_height = 600\<rparr>"
  by (simp add: ex_picked_def ex_start_eq attempt_pickup_def pickup_flag_def const_defs)

lemma ex_stolen_eq: "ex_stolen =
  \<lparr>players = [(1, \<lparr>p_pid = 1, p_x = 950, p_y = 300, p_team = ''red'', p_red = True, p_blue = False\<rparr>),
              (2, \<lparr>p_pid = 2, p_x = 50, p_y = 300, p_team = ''blue'', p_red = False, p_blue = False\<rparr>)],
   flags = [(''red'', \<lparr>f_team = ''red'', f_spawn_x = 50, f_spawn_y = 300, f_x = 950, f_y = 300, f_carrier = Some 1, f_locked = None\<rparr>),
            (''blue'', \<lparr>f_team = ''blue'', f_spawn_x = 950, f_spawn_y = 300, f_x = 950, f_y = 300, f_carrier = None, f_locked = None\<rparr>)],
   scores = [(''red'', 0), (''blue'', 0)], map_width = 1000, map_height = 600\<rparr>"
  by (simp add: ex_stolen_def ex_picked_eq attempt_steal_def const_defs)

lemma ex_both_eq: "ex_both =
  \<lparr>players = [(1, \<lparr>p_pid = 1, p_x = 950, p_y = 300, p_team = ''red'', p_red = False, p_blue = True\<rparr>),
              (2, \<lparr>p_pid = 2, p_x = 50, p_y = 300, p_team = ''blue'', p_red = True, p_blue = False\<rparr>)],
   flags = [(''red'', \<lparr>f_team = ''red'', f_spawn_x = 50, f_spawn_y = 300, f_x = 50, f_y = 300, f_carrier = Some 2, f_locked = None\<rparr>),
            (''blue'', \<lparr>f_team = ''blue'', f_spawn_x = 950, f_spawn_y = 300, f_x = 950, f_y = 300, f_carrier = Some 1, f_locked = None\<rparr>)],
   scores = [(''red'', 0), (''blue'', 0)], map_width = 1000, map_height = 600\<rparr>"
  by (simp add: ex_both_def ex_start_eq attempt_pickup_def pickup_flag_def const_defs)

lemma ex_far_eq: "ex_far =
  \<lparr>players = [(1, \<lparr>p_pid = 1, p_x = 120, p_y = 137, p_team = ''red'', p_red = False, p_blue = False\<rparr>),
              (2, \<lparr>p_pid = 2, p_x = 50, p_y = 300, p_team = ''blue'', p_red = True, p_blue = False\<rparr>)],
   flags = [(''red'', \<lparr>f_team = ''red'', f_spawn_x = 50, f_spawn_y = 300, f_x = 50, f_y = 300, f_carrier = Some 2, f_locked = None\<rparr>),
            (''blue'', \<lparr>f_team = ''blue'', f_spawn_x = 950, f_spawn_y = 300, f_x = 950, f_y = 300, f_carrier = None, f_locked = None\<rparr>)],
   scores = [(''red'', 0), (''blue'', 0)], map_width = 1000, map_height = 600\<rparr>"
  by (simp add: ex_far_def world_defs attempt_pickup_def pickup_flag_def)

lemma ex_stolen_pickup_eq: "attempt_pickup ex_stolen 1 =
  \<lparr>players = [(1, \<lparr>p_pid = 1, p_x = 950, p_y = 300, p_team = ''red'', p_red = False, p_blue = True\<rparr>),
              (2, \<lparr>p_pid = 2, p_x = 50, p_y = 300, p_team = ''blue'', p_red = False, p_blue = False\<rparr>)],
   flags = [(''red'', \<lparr>f_team = ''red'', f_spawn_x = 50, f_spawn_y = 300, f_x = 950, f_y = 300, f_carrier = Some 1, f_locked = None\<rparr>),
            (''blue'', \<lparr>f_team = ''blue'', f_spawn_x = 950, f_spawn_y = 300, f_x = 950, f_y = 300, f_carrier = Some 1, f_locked = None\<rparr>)],
   scores = [(''red'', 0), (''blue'', 0)], map_width = 1000, map_height = 600\<rparr>"
  by (simp add: ex_stolen_eq attempt_pickup_def pickup_flag_def const_defs)

lemma ex_both_steal_eq: "attempt_steal ex_both 1 2 ''red'' 0 =
  \<lparr>players = [(1, \<lparr>p_pid = 1, p_x = 950, p_y = 300, p_team = ''red'', p_red = True, p_blue = False\<rparr>),
              (2, \<lparr>p_pid = 2, p_x = 50, p_y = 300, p_team = ''blue'', p_red = False, p_blue = False\<rparr>)],
   flags = [(''red'', \<lparr>f_team = ''red'', f_spawn_x = 50, f_spawn_y = 300, f_x = 950, f_y = 300, f_carrier = Some 1, f_locked = None\<rparr>),
            (''blue'', \<lparr>f_team = ''blue'', f_spawn_x = 950, f_spawn_y = 300, f_x = 950, f_y = 300, f_carrier = Some 1, f_locked = None\<rparr>)],
   scores = [(''red'', 0), (''blue'', 0)], map_width = 1000, map_height = 600\<rparr>"
  by (simp add: ex_both_eq attempt_steal_def const_defs)

lemma ex_far_steal_eq: "attempt_steal ex_far 1 2 ''red'' 0 =
  \<lparr>players = [(1, \<lparr>p_pid = 1, p_x = 120, p_y = 137, p_team = ''red'', p_red = True, p_blue = False\<rparr>),
              (2, \<lparr>p_pid = 2, p_x = 50, p_y = 300, p_team = ''blue'', p_red = False, p_blue = False\<rparr>)],
   flags = [(''red'', \<lparr>f_team = ''red'', f_spawn_x = 50, f_spawn_y = 300, f_x = 120, f_y = 137, f_carrier = Some 1, f_locked = None\<rparr>),
            (''blue'', \<lparr>f_team = ''blue'', f_spawn_x = 950, f_spawn_y = 300, f_x = 950, f_y = 300, f_carrier = None, f_locked = None\<rparr>)],
   scores = [(''red'', 0), (''blue'', 0)], map_width = 1000, map_height = 600\<rparr>"
  by (simp add: ex_far_eq attempt_steal_def const_defs)

lemma wf_ex_boundary: "wf_game ex_boundary" by (simp add: wf_game_def ex_boundary_eq)
lemma wf_ex_start: "wf_game ex_start" by (simp add: wf_game_def ex_start_eq)
lemma wf_ex_picked: "wf_game ex_picked" by (simp add: wf_game_def ex_picked_eq)
lemma wf_ex_both: "wf_game ex_both" by (simp add: wf_game_def ex_both_eq)
lemma wf_ex_far: "wf_game ex_far" by (simp add: wf_game_def ex_far_eq)

subsection \<open>Well-formed worlds\<close>

lemma wf_flagsD:
  assumes "wf_game g"
  obtains fr fb where "flags g = [(''red'', fr), (''blue'', fb)]"
    and "f_team fr = ''red''" and "f_team fb = ''blue''"
proof -
  from assms have k: "map fst (flags g) = [''red'', ''blue'']"
    and t: "\<forall>(k, f) \<in> set (flags g). f_team f = k"
    by (simp_all add: wf_game_def)
  from k obtain fr fb where fl: "flags g = [(''red'', fr), (''blue'', fb)]"
    by (auto simp: map_eq_Cons_conv)
  with t have "f_team fr = ''red''" "f_team fb = ''blue''" by auto
  with fl show thesis by (rule that)
qed

lemma wf_playerD:
  assumes "wf_game g" and "map_of (players g) i = Some p"
  shows "p_pid p = i" and "p_team p = ''red'' \<or> p_team p = ''blue''"
  using assms by (auto simp: wf_game_def dest!: map_of_SomeD)

lemma wf_flag_teamD:
  assumes "wf_game g" and "map_of (flags g) k = Some f"
  shows "f_team f = k" and "k = ''red'' \<or> k = ''blue''"
proof -
  from assms(2) have m: "(k, f) \<in> set (flags g)" by (rule map_of_SomeD)
  with assms(1) show "f_team f = k" by (auto simp: wf_game_def)
  from m have "k \<in> set (map fst (flags g))" by force
  with assms(1) show "k = ''red'' \<or> k = ''blue''" by (simp add: wf_game_def)
qed

lemma players_neq: "map_of (players g') i \<noteq> map_of (players g) i \<Longrightarrow> g' \<noteq> g"
  by auto

lemma flags_neq: "map_of (flags g') k \<noteq> map_of (flags g) k \<Longrightarrow> g' \<noteq> g"
  by auto

subsection \<open>Pickup\<close>

text \<open>In a well-formed world the loop of \<^verbatim>\<open>attempt_pickup\<close> acts on one flag only.\<close>

lemma attempt_pickup_opposing:
  assumes "wf_game g" and "map_of (players g) i = Some p"
  shows "attempt_pickup g i = pickup_flag i (opposing (p_team p)) g"
proof -
  from assms(1) obtain fr fb where fl: "flags g = [(''red'', fr), (''blue'', fb)]"
    "f_team fr = ''red''" "f_team fb = ''blue''" by (rule wf_flagsD)
  from wf_playerD[OF assms] have "p_team p = ''red'' \<or> p_team p = ''blue''" by simp
  then show ?thesis
  proof
    assume r: "p_team p = ''red''"
    show ?thesis using assms(2) fl r
      by (simp add: attempt_pickup_def pickup_flag_def opposing_def)
  next
    assume b: "p_team p = ''blue''"
    show ?thesis using assms(2) fl b
      by (simp add: attempt_pickup_def pickup_flag_def opposing_def Let_def
          AList.map_of_map_entry)
  qed
qed

text \<open>
  C3. For a connected requester \<open>i\<close> of a well-formed world and the flag \<open>f\<close> of the
  opposing team, \<^verbatim>\<open>attempt_pickup\<close> changes the world if and only if the flag has no
  carrier and the squared distance from the requester to the flag is at most
  \<open>PICKUP_RADIUS\<^sup>2\<close> (the boundary included). In that case the flag's carrier is the
  requester and the requester's indicator for that flag is set; otherwise the world is
  returned unchanged. The function returns a world in every case: no error is raised.
\<close>

theorem attempt_pickup_iff:
  assumes wf: "wf_game g"
    and pl: "map_of (players g) i = Some p"
    and fl: "map_of (flags g) (opposing (p_team p)) = Some f"
  shows "let g' = attempt_pickup g i;
             ok = (f_carrier f = None \<and>
                   (p_x p - f_x f) * (p_x p - f_x f) + (p_y p - f_y f) * (p_y p - f_y f)
                     \<le> PICKUP_RADIUS * PICKUP_RADIUS)
         in (g' \<noteq> g) = ok \<and>
            (ok \<longrightarrow>
               map_of (flags g') (opposing (p_team p)) = Some (f\<lparr>f_carrier := Some i\<rparr>) \<and>
               (\<exists>p'. map_of (players g') i = Some p' \<and> carries p' (opposing (p_team p)))) \<and>
            (\<not> ok \<longrightarrow> g' = g)"
proof -
  let ?o = "opposing (p_team p)"
  have ft: "f_team f = ?o" and ok: "?o = ''red'' \<or> ?o = ''blue''"
    using wf_flag_teamD[OF wf fl] by simp_all
  have tm: "p_team p = ''red'' \<or> p_team p = ''blue''" using wf_playerD[OF wf pl] by simp
  have ne: "f_team f \<noteq> p_team p" using ft tm by (auto simp: opposing_def)
  have eq: "attempt_pickup g i = pickup_flag i ?o g" by (rule attempt_pickup_opposing[OF wf pl])
  show ?thesis
  proof (cases "f_carrier f = None \<and>
                   (p_x p - f_x f) * (p_x p - f_x f) + (p_y p - f_y f) * (p_y p - f_y f)
                     \<le> PICKUP_RADIUS * PICKUP_RADIUS")
    case True
    have fl': "map_of (flags (pickup_flag i ?o g)) ?o = Some (f\<lparr>f_carrier := Some i\<rparr>)"
      using True pl fl ne by (simp add: pickup_flag_def Let_def AList.map_of_map_entry)
    have "\<exists>p'. map_of (players (pickup_flag i ?o g)) i = Some p' \<and> carries p' ?o"
      using True pl fl ne ft ok
      by (auto simp add: pickup_flag_def Let_def AList.map_of_map_entry carries_def)
    moreover have "pickup_flag i ?o g \<noteq> g"
    proof (rule flags_neq[where k = ?o])
      show "map_of (flags (pickup_flag i ?o g)) ?o \<noteq> map_of (flags g) ?o"
        using fl' fl True by (auto dest: arg_cong[where f=f_carrier])
    qed
    ultimately show ?thesis using True fl' eq by (simp add: Let_def)
  next
    case False
    then have "pickup_flag i ?o g = g" using pl fl ne
      by (auto simp add: pickup_flag_def Let_def)
    then show ?thesis using False eq by (auto simp add: Let_def)
  qed
qed

text \<open>
  Witness: player 1 (red) stands at \<open>(920, 300)\<close>, exactly 30 units from the blue flag at
  \<open>(950, 300)\<close>; the squared distance is exactly \<open>900\<close> and the pickup succeeds.
\<close>

theorem attempt_pickup_iff_witness:
  "wf_game ex_boundary \<and>
   (920 - 950) * (920 - 950) + (300 - 300) * (300 - 300) = PICKUP_RADIUS * PICKUP_RADIUS \<and>
   attempt_pickup ex_boundary 1 \<noteq> ex_boundary \<and>
   map_option f_carrier (map_of (flags (attempt_pickup ex_boundary 1)) ''blue'') = Some (Some 1)"
  using attempt_pickup_iff[OF wf_ex_boundary,
      of 1 "\<lparr>p_pid = 1, p_x = 920, p_y = 300, p_team = ''red'', p_red = False, p_blue = False\<rparr>"
      "\<lparr>f_team = ''blue'', f_spawn_x = 950, f_spawn_y = 300, f_x = 950, f_y = 300,
         f_carrier = None, f_locked = None\<rparr>"]
    wf_ex_boundary
  by (simp add: ex_boundary_eq opposing_def Let_def const_defs)








subsection \<open>Steal\<close>

text \<open>
  C2, as the claim states it, fails: \<^verbatim>\<open>attempt_steal\<close> never looks at positions. In
  \<open>ex_far\<close> the attacker (player 1) is far outside the proximity radius of the defender
  (player 2, who carries the red flag); with a draw of \<open>0\<close> the steal succeeds.
\<close>

theorem steal_succeeds_out_of_range:
  "player_dist_sq ex_far 1 2 = Some 31469 \<and>
   \<not> 31469 \<le> PICKUP_RADIUS * PICKUP_RADIUS \<and>
   attempt_steal ex_far 1 2 ''red'' 0 \<noteq> ex_far \<and>
   map_option f_carrier (map_of (flags (attempt_steal ex_far 1 2 ''red'' 0)) ''red'') = Some (Some 1) \<and>
   map_option p_red (map_of (players (attempt_steal ex_far 1 2 ''red'' 0)) 1) = Some True \<and>
   map_option p_red (map_of (players (attempt_steal ex_far 1 2 ''red'' 0)) 2) = Some False"
proof -
  have "attempt_steal ex_far 1 2 ''red'' 0 \<noteq> ex_far"
    by (rule players_neq[where i = 1]) (simp add: ex_far_steal_eq, simp add: ex_far_eq)
  moreover have "player_dist_sq ex_far 1 2 = Some 31469"
    by (simp add: player_dist_sq_def ex_far_eq)
  ultimately show ?thesis
    by (simp add: ex_far_steal_eq const_defs)
qed

text \<open>
  C2, amended. In a well-formed world a steal attempt changes the world if and only if
  the named flag exists, attacker and defender are connected, the defender carries the
  named flag, the two teams differ and the draw is below \<open>STEAL_CHANCE\<close> (the double
  \<^verbatim>\<open>0.35\<close>; a draw equal to it fails); no distance is involved. Then the defender's
  indicators are cleared, the attacker's indicator for the flag is set, and the flag's
  carrier and position are the attacker's. Otherwise the world is returned unchanged.
\<close>

theorem attempt_steal_iff:
  assumes wf: "wf_game g"
  shows "(attempt_steal g a d t draw \<noteq> g) =
           (\<exists>att def f. map_of (players g) a = Some att \<and> map_of (players g) d = Some def \<and>
              map_of (flags g) t = Some f \<and> carries def t \<and> p_team att \<noteq> p_team def \<and>
              draw < STEAL_CHANCE) \<and>
         (\<forall>att def f. map_of (players g) a = Some att \<longrightarrow> map_of (players g) d = Some def \<longrightarrow>
              map_of (flags g) t = Some f \<longrightarrow> carries def t \<longrightarrow> p_team att \<noteq> p_team def \<longrightarrow>
              draw < STEAL_CHANCE \<longrightarrow>
              map_of (players (attempt_steal g a d t draw)) a =
                Some (att\<lparr>p_red := (t = ''red''), p_blue := (t = ''blue'')\<rparr>) \<and>
              map_of (players (attempt_steal g a d t draw)) d =
                Some (def\<lparr>p_red := False, p_blue := False\<rparr>) \<and>
              map_of (flags (attempt_steal g a d t draw)) t =
                Some (f\<lparr>f_carrier := Some a, f_x := p_x att, f_y := p_y att\<rparr>))"
proof -
  have post: "map_of (players (attempt_steal g a d t draw)) a =
                Some (att\<lparr>p_red := (t = ''red''), p_blue := (t = ''blue'')\<rparr>) \<and>
              map_of (players (attempt_steal g a d t draw)) d =
                Some (def\<lparr>p_red := False, p_blue := False\<rparr>) \<and>
              map_of (flags (attempt_steal g a d t draw)) t =
                Some (f\<lparr>f_carrier := Some a, f_x := p_x att, f_y := p_y att\<rparr>)"
    if h: "map_of (players g) a = Some att" "map_of (players g) d = Some def"
      "map_of (flags g) t = Some f" "carries def t" "p_team att \<noteq> p_team def"
      "draw < STEAL_CHANCE" for att def f
  proof -
    from h(1,2,5) have ad: "a \<noteq> d" by auto
    have pid: "p_pid att = a" using wf_playerD[OF wf h(1)] by simp
    show ?thesis using h ad pid
      by (auto simp add: attempt_steal_def carries_def AList.map_of_map_entry)
  qed
  have changed: "attempt_steal g a d t draw \<noteq> g"
    if h: "map_of (players g) a = Some att" "map_of (players g) d = Some def"
      "map_of (flags g) t = Some f" "carries def t" "p_team att \<noteq> p_team def"
      "draw < STEAL_CHANCE" for att def f
  proof (rule players_neq[where i = d])
    from post[OF h] have "map_of (players (attempt_steal g a d t draw)) d =
        Some (def\<lparr>p_red := False, p_blue := False\<rparr>)" by simp
    moreover have "def\<lparr>p_red := False, p_blue := False\<rparr> \<noteq> def"
    proof
      assume e: "def\<lparr>p_red := False, p_blue := False\<rparr> = def"
      from arg_cong[OF e, of p_red] arg_cong[OF e, of p_blue] h(4)
      show False by (simp add: carries_def)
    qed
    ultimately show "map_of (players (attempt_steal g a d t draw)) d \<noteq> map_of (players g) d"
      using h(2) by simp
  qed
  have unchanged: "\<exists>att def f. map_of (players g) a = Some att \<and> map_of (players g) d = Some def \<and>
              map_of (flags g) t = Some f \<and> carries def t \<and> p_team att \<noteq> p_team def \<and>
              draw < STEAL_CHANCE"
    if ne: "attempt_steal g a d t draw \<noteq> g"
  proof -
    from ne obtain f where f: "map_of (flags g) t = Some f"
      by (cases "map_of (flags g) t") (auto simp: attempt_steal_def)
    from wf_flag_teamD[OF wf f] have t: "t = ''red'' \<or> t = ''blue''" by simp
    from ne f obtain att where att: "map_of (players g) a = Some att"
      by (cases "map_of (players g) a") (auto simp: attempt_steal_def)
    from ne f att obtain def where def: "map_of (players g) d = Some def"
      by (cases "map_of (players g) d") (auto simp: attempt_steal_def)
    from ne f att def t have "carries def t \<and> p_team att \<noteq> p_team def \<and> draw < STEAL_CHANCE"
      by (auto simp: attempt_steal_def carries_def split: if_splits)
    with f att def show ?thesis by blast
  qed
  from changed unchanged post show ?thesis by blast
qed

text \<open>
  Witness: in \<open>ex_picked\<close> player 2 carries the red flag; player 1 steals it with a draw
  of \<open>0\<close>, and fails to with a draw of \<open>1/2\<close> and with a draw of exactly \<open>STEAL_CHANCE\<close>.
\<close>

theorem attempt_steal_iff_witness:
  "wf_game ex_picked \<and>
   attempt_steal ex_picked 1 2 ''red'' 0 \<noteq> ex_picked \<and>
   attempt_steal ex_picked 1 2 ''red'' (1 / 2) = ex_picked \<and>
   attempt_steal ex_picked 1 2 ''red'' STEAL_CHANCE = ex_picked \<and>
   map_option f_carrier (map_of (flags (attempt_steal ex_picked 1 2 ''red'' 0)) ''red'') =
     Some (Some 1)"
proof -
  have c: "carries \<lparr>p_pid = 2, p_x = 50, p_y = 300, p_team = ''blue'', p_red = True, p_blue = False\<rparr> ''red''"
    by (simp add: carries_def)
  from attempt_steal_iff[OF wf_ex_picked, of 1 2 "''red''" 0]
  have a: "attempt_steal ex_picked 1 2 ''red'' 0 \<noteq> ex_picked \<and>
           map_option f_carrier (map_of (flags (attempt_steal ex_picked 1 2 ''red'' 0)) ''red'') =
             Some (Some 1)"
    using c by (simp add: ex_picked_eq const_defs)
  from attempt_steal_iff[OF wf_ex_picked, of 1 2 "''red''" "1 / 2"]
  have b: "attempt_steal ex_picked 1 2 ''red'' (1 / 2) = ex_picked"
    by (simp add: ex_picked_eq const_defs)
  from attempt_steal_iff[OF wf_ex_picked, of 1 2 "''red''" STEAL_CHANCE]
  have d: "attempt_steal ex_picked 1 2 ''red'' STEAL_CHANCE = ex_picked"
    by simp
  from a b d wf_ex_picked show ?thesis by simp
qed

subsection \<open>Carrier consistency\<close>

text \<open>
  C1 fails on the code. Both \<open>ex_stolen\<close> and \<open>ex_both\<close> are carrier consistent. In
  \<open>ex_stolen\<close> player 1 holds the red flag and picks up the blue flag: the pickup clears
  its red indicator, but the red flag's carrier still names player 1. In \<open>ex_both\<close>
  player 1 holds the blue flag and steals the red flag from player 2: the steal clears
  its blue indicator, but the blue flag's carrier still names player 1.
\<close>

theorem pickup_steal_break_consistency:
  "carrier_consistent ex_stolen \<and> \<not> carrier_consistent (attempt_pickup ex_stolen 1) \<and>
   carrier_consistent ex_both \<and> \<not> carrier_consistent (attempt_steal ex_both 1 2 ''red'' 0)"
proof -
  have "carrier_consistent ex_stolen"
    by (simp add: carrier_consistent_def carries_def ex_stolen_eq)
  moreover have "\<not> carrier_consistent (attempt_pickup ex_stolen 1)"
    by (simp add: carrier_consistent_def carries_def ex_stolen_pickup_eq)
  moreover have "carrier_consistent ex_both"
    by (simp add: carrier_consistent_def carries_def ex_both_eq)
  moreover have "\<not> carrier_consistent (attempt_steal ex_both 1 2 ''red'' 0)"
    by (simp add: carrier_consistent_def carries_def ex_both_steal_eq)
  ultimately show ?thesis by simp
qed

theorem pickup_steal_break_consistency_witness:
  "map_option f_carrier (map_of (flags (attempt_pickup ex_stolen 1)) ''red'') = Some (Some 1) \<and>
   map_option p_red (map_of (players (attempt_pickup ex_stolen 1)) 1) = Some False \<and>
   \<not> carrier_consistent (attempt_pickup ex_stolen 1)"
  using pickup_steal_break_consistency by (simp add: ex_stolen_pickup_eq)

subsection \<open>Scoring\<close>

lemmas server_defs = server_of_def init_server_def

lemma ex_two_scorers_eq: "ex_two_scorers =
  \<lparr>game =
     \<lparr>players = [(1, \<lparr>p_pid = 1, p_x = 50, p_y = 300, p_team = ''red'', p_red = False, p_blue = True\<rparr>),
                 (2, \<lparr>p_pid = 2, p_x = 950, p_y = 300, p_team = ''blue'', p_red = True, p_blue = False\<rparr>)],
      flags = [(''red'', \<lparr>f_team = ''red'', f_spawn_x = 50, f_spawn_y = 300, f_x = 950, f_y = 300, f_carrier = Some 2, f_locked = None\<rparr>),
               (''blue'', \<lparr>f_team = ''blue'', f_spawn_x = 950, f_spawn_y = 300, f_x = 50, f_y = 300, f_carrier = Some 1, f_locked = None\<rparr>)],
      scores = [(''red'', 0), (''blue'', 0)], map_width = 1000, map_height = 600\<rparr>,
   next_player_id = 1, client_sockets = [1, 2], input_queues = [(1, []), (2, [])],
   client_threads = [1, 2], running = True, outbox = [], closed_sockets = []\<rparr>"
  by (simp add: ex_two_scorers_def server_defs world_defs)

lemma ex_two_scorers_check: "check_score ex_two_scorers =
  Inr \<lparr>game =
     \<lparr>players = [(1, \<lparr>p_pid = 1, p_x = 50, p_y = 300, p_team = ''red'', p_red = False, p_blue = False\<rparr>),
                 (2, \<lparr>p_pid = 2, p_x = 950, p_y = 300, p_team = ''blue'', p_red = False, p_blue = False\<rparr>)],
      flags = [(''red'', \<lparr>f_team = ''red'', f_spawn_x = 50, f_spawn_y = 300, f_x = 50, f_y = 300, f_carrier = None, f_locked = Some False\<rparr>),
               (''blue'', \<lparr>f_team = ''blue'', f_spawn_x = 950, f_spawn_y = 300, f_x = 950, f_y = 300, f_carrier = None, f_locked = Some False\<rparr>)],
      scores = [(''red'', 1), (''blue'', 0)], map_width = 1000, map_height = 600\<rparr>,
   next_player_id = 1, client_sockets = [1, 2], input_queues = [(1, []), (2, [])],
   client_threads = [1, 2], running = True, outbox = [], closed_sockets = []\<rparr>"
  by (simp add: ex_two_scorers_eq check_score_def carried_flags_def score_and_reset_def
      reset_flag_def const_defs Let_def)

lemma wf_ex_two_scorers: "wf_game (game ex_two_scorers)"
  by (simp add: wf_game_def ex_two_scorers_eq)

lemma carried_flags_length: "length (carried_flags pl) \<le> 2"
  by (simp add: carried_flags_def)

lemma carried_flags_two_teams:
  assumes "p_team pl = ''red'' \<or> p_team pl = ''blue''" and "carried_flags pl \<noteq> []"
  shows "length (carried_flags pl) = 1"
  using assms by (auto simp: carried_flags_def split: if_splits)

lemma check_score_loop_skip:
  assumes "map_of (flags (game s)) ''red'' \<noteq> None" and "map_of (flags (game s)) ''blue'' \<noteq> None"
    and "\<forall>(j, q) \<in> set pre. \<not> can_score (game s) q"
  shows "check_score_loop s (pre @ rest) = check_score_loop s rest"
  using assms(3)
proof (induction pre)
  case Nil
  then show ?case by simp
next
  case (Cons a pre)
  obtain j q where a: "a = (j, q)" by (cases a)
  from Cons.prems a have nq: "\<not> can_score (game s) q" and rest: "\<forall>(j, q) \<in> set pre. \<not> can_score (game s) q"
    by auto
  have "check_score_loop s ((j, q) # pre @ rest) = check_score_loop s (pre @ rest)"
  proof (cases "carried_flags q = []")
    case True
    then show ?thesis by simp
  next
    case False
    let ?b = "if p_team q = ''red'' then ''red'' else ''blue''"
    from assms(1,2) obtain bf where bf: "map_of (flags (game s)) ?b = Some bf"
      by (cases "p_team q = ''red''") auto
    with nq False have "\<not> (p_x q - f_spawn_x bf) * (p_x q - f_spawn_x bf) +
          (p_y q - f_spawn_y bf) * (p_y q - f_spawn_y bf) \<le> BASE_RADIUS * BASE_RADIUS"
      by (simp add: can_score_def)
    with False bf show ?thesis by (simp add: Let_def split del: if_split)
  qed
  with Cons.IH[OF rest] a show ?case by simp
qed

lemma check_score_loop_hit:
  assumes "can_score (game s) pl" and "map_of (scores (game s)) (p_team pl) = Some sc"
  shows "check_score_loop s ((i, pl) # rest) =
           Inr (score_and_reset s (p_team pl) (sc + int (length (carried_flags pl))))"
proof -
  let ?b = "if p_team pl = ''red'' then ''red'' else ''blue''"
  from assms(1) have c: "carried_flags pl \<noteq> []" by (simp add: can_score_def)
  from assms(1) obtain bf where bf: "map_of (flags (game s)) ?b = Some bf"
    by (cases "map_of (flags (game s)) ?b") (simp_all add: can_score_def split del: if_split)
  with assms(1) have "(p_x pl - f_spawn_x bf) * (p_x pl - f_spawn_x bf) +
          (p_y pl - f_spawn_y bf) * (p_y pl - f_spawn_y bf) \<le> BASE_RADIUS * BASE_RADIUS"
    by (simp add: can_score_def split del: if_split)
  with c bf assms(2) show ?thesis by (simp add: Let_def split del: if_split)
qed

lemma check_score_none:
  assumes "map_of (flags (game s)) ''red'' \<noteq> None" and "map_of (flags (game s)) ''blue'' \<noteq> None"
    and "\<forall>(j, q) \<in> set (players (game s)). \<not> can_score (game s) q"
  shows "check_score s = Inr s"
  using check_score_loop_skip[OF assms(1,2), of "players (game s)" "[]"] assms(3)
  by (simp add: check_score_def)

lemma check_score_first:
  assumes "map_of (flags (game s)) ''red'' \<noteq> None" and "map_of (flags (game s)) ''blue'' \<noteq> None"
    and "players (game s) = pre @ (i, pl) # rest"
    and "\<forall>(j, q) \<in> set pre. \<not> can_score (game s) q"
    and "can_score (game s) pl"
    and "map_of (scores (game s)) (p_team pl) = Some sc"
  shows "check_score s = Inr (score_and_reset s (p_team pl) (sc + int (length (carried_flags pl))))"
  using check_score_loop_skip[OF assms(1,2,4), of "(i, pl) # rest"]
    check_score_loop_hit[OF assms(5,6), of i rest] assms(3)
  by (simp add: check_score_def)

lemma game_score_and_reset:
  "game (score_and_reset s t n) =
     (game s)\<lparr>scores := AList.update t n (scores (game s)),
              flags := AList.map_ran (\<lambda>_. reset_flag) (flags (game s)),
              players := AList.map_ran (\<lambda>_ p. p\<lparr>p_red := False, p_blue := False\<rparr>)
                           (players (game s))\<rparr>"
  by (simp add: score_and_reset_def Let_def broadcast_def)

lemma flags_reset_all:
  "\<forall>(k, f) \<in> set (AList.map_ran (\<lambda>_. reset_flag) fl).
     f_carrier f = None \<and> f_x f = f_spawn_x f \<and> f_y f = f_spawn_y f"
  by (auto simp: AList.map_ran_def reset_flag_def)

lemma players_cleared_all:
  "\<forall>(j, q) \<in> set (AList.map_ran (\<lambda>_ p. p\<lparr>p_red := False, p_blue := False\<rparr>) ps).
     \<not> p_red q \<and> \<not> p_blue q"
  by (auto simp: AList.map_ran_def)

text \<open>
  C5, as the claim states it, fails. In \<open>ex_two_scorers\<close> player 2 carries one opposing
  flag and stands on its own base, so it satisfies the scoring condition; but player 1,
  earlier in the dictionary, satisfies it too. One scoring evaluation gives the point to
  red and resets every flag: blue's score stays \<open>0\<close>.
\<close>

theorem second_scorer_gets_nothing:
  "map_option (can_score (game ex_two_scorers)) (map_of (players (game ex_two_scorers)) 2) = Some True \<and>
   map_option carried_flags (map_of (players (game ex_two_scorers)) 2) = Some [''red''] \<and>
   score_of ex_two_scorers ''blue'' = Some 0 \<and>
   (case check_score ex_two_scorers of Inl e \<Rightarrow> None | Inr s' \<Rightarrow> score_of s' ''blue'') = Some 0 \<and>
   (case check_score ex_two_scorers of Inl e \<Rightarrow> None | Inr s' \<Rightarrow> score_of s' ''red'') = Some 1"
  by (simp add: ex_two_scorers_check score_of_def)
    (simp add: ex_two_scorers_eq can_score_def carried_flags_def const_defs)

text \<open>
  C5, amended. Let \<open>pl\<close> be the first player in iteration order that carries \<open>N\<close> opposing
  flags (\<open>N\<close> is 1 or 2) and stands within the base capture radius of its own team's flag
  spawn. Then one scoring evaluation raises the score of that player's team by exactly
  \<open>N\<close>, and afterwards every flag has no carrier and is at its spawn position and every
  player's indicators are cleared.
\<close>

theorem check_score_first_scorer:
  assumes fr: "map_of (flags (game s)) ''red'' \<noteq> None"
    and fb: "map_of (flags (game s)) ''blue'' \<noteq> None"
    and split: "players (game s) = pre @ (i, pl) # rest"
    and none: "\<forall>(j, q) \<in> set pre. \<not> can_score (game s) q"
    and can: "can_score (game s) pl"
    and sc: "map_of (scores (game s)) (p_team pl) = Some sc"
  shows "\<exists>s'. check_score s = Inr s' \<and>
           map_of (scores (game s')) (p_team pl) = Some (sc + int (length (carried_flags pl))) \<and>
           length (carried_flags pl) \<in> {1, 2} \<and>
           (\<forall>(k, f) \<in> set (flags (game s')).
              f_carrier f = None \<and> f_x f = f_spawn_x f \<and> f_y f = f_spawn_y f) \<and>
           (\<forall>(j, q) \<in> set (players (game s')). \<not> p_red q \<and> \<not> p_blue q)"
proof -
  let ?s' = "score_and_reset s (p_team pl) (sc + int (length (carried_flags pl)))"
  have run: "check_score s = Inr ?s'" by (rule check_score_first[OF fr fb split none can sc])
  have "map_of (scores (game ?s')) (p_team pl) = Some (sc + int (length (carried_flags pl)))"
    by (simp add: game_score_and_reset AList.update_conv')
  moreover have "length (carried_flags pl) \<in> {1, 2}"
    using can by (auto simp: can_score_def carried_flags_def split: if_splits)
  moreover have "\<forall>(k, f) \<in> set (flags (game ?s')).
              f_carrier f = None \<and> f_x f = f_spawn_x f \<and> f_y f = f_spawn_y f"
    using flags_reset_all by (simp add: game_score_and_reset)
  moreover have "\<forall>(j, q) \<in> set (players (game ?s')). \<not> p_red q \<and> \<not> p_blue q"
    using players_cleared_all by (simp add: game_score_and_reset)
  ultimately show ?thesis using run by blast
qed

text \<open>Witness: player 1 of \<open>ex_two_scorers\<close> is first in the dictionary and scores one point.\<close>

theorem check_score_first_scorer_witness:
  "can_score (game ex_two_scorers)
     \<lparr>p_pid = 1, p_x = 50, p_y = 300, p_team = ''red'', p_red = False, p_blue = True\<rparr> \<and>
   (\<exists>s'. check_score ex_two_scorers = Inr s' \<and> score_of ex_two_scorers ''red'' = Some 0 \<and>
      score_of s' ''red'' = Some 1 \<and>
      map (\<lambda>(k, f). (f_carrier f, f_x f, f_y f)) (flags (game s')) =
        [(None, 50, 300), (None, 950, 300)])"
proof -
  let ?p1 = "\<lparr>p_pid = 1, p_x = 50, p_y = 300, p_team = ''red'', p_red = False, p_blue = True\<rparr>"
  have can: "can_score (game ex_two_scorers) ?p1"
    by (simp add: ex_two_scorers_eq can_score_def carried_flags_def const_defs)
  have "\<exists>s'. check_score ex_two_scorers = Inr s' \<and>
          map_of (scores (game s')) (p_team ?p1) = Some (0 + int (length (carried_flags ?p1))) \<and>
          length (carried_flags ?p1) \<in> {1, 2} \<and>
          (\<forall>(k, f) \<in> set (flags (game s')).
             f_carrier f = None \<and> f_x f = f_spawn_x f \<and> f_y f = f_spawn_y f) \<and>
          (\<forall>(j, q) \<in> set (players (game s')). \<not> p_red q \<and> \<not> p_blue q)"
    by (rule check_score_first_scorer[where pre = "[]" and i = 1 and
          rest = "[(2, \<lparr>p_pid = 2, p_x = 950, p_y = 300, p_team = ''blue'', p_red = True, p_blue = False\<rparr>)]"])
      (simp_all add: can, simp_all add: ex_two_scorers_eq)
  then show ?thesis using can
    by (auto simp: ex_two_scorers_check score_of_def carried_flags_def)
      (simp add: ex_two_scorers_eq)
qed

lemma wf_flags_present:
  assumes "wf_game g"
  shows "map_of (flags g) ''red'' \<noteq> None" and "map_of (flags g) ''blue'' \<noteq> None"
proof -
  from assms obtain fr fb where "flags g = [(''red'', fr), (''blue'', fb)]" by (rule wf_flagsD)
  then show "map_of (flags g) ''red'' \<noteq> None" and "map_of (flags g) ''blue'' \<noteq> None"
    by simp_all
qed

lemma wf_scores_present:
  assumes "wf_game g" and "t = ''red'' \<or> t = ''blue''"
  shows "\<exists>sc. map_of (scores g) t = Some sc"
proof -
  from assms(1) have "map fst (scores g) = [''red'', ''blue'']" by (simp add: wf_game_def)
  then obtain a b where "scores g = [(''red'', a), (''blue'', b)]"
    by (auto simp: map_eq_Cons_conv)
  with assms(2) show ?thesis by auto
qed

lemma wf_player_memD:
  assumes "wf_game g" and "(i, p) \<in> set (players g)"
  shows "p_pid p = i" and "p_team p = ''red'' \<or> p_team p = ''blue''"
  using assms by (auto simp: wf_game_def)

lemma cleared_cannot_score: "\<not> p_red q \<Longrightarrow> \<not> p_blue q \<Longrightarrow> \<not> can_score g q"
  by (simp add: can_score_def carried_flags_def)

text \<open>
  C10. In a well-formed world one scoring evaluation returns normally and applies at most
  one scoring event. Either no player satisfies the scoring condition and the state is
  unchanged, or the first player in iteration order that satisfies it scores: the score
  table changes in that player's team's entry only, by one point, every player's
  indicators are cleared, and no player satisfies the scoring condition any more, however
  many satisfied it before.
\<close>

theorem check_score_at_most_one:
  assumes wf: "wf_game (game s)"
  shows "\<exists>s'. check_score s = Inr s' \<and>
           ((\<forall>(j, q) \<in> set (players (game s)). \<not> can_score (game s) q) \<and> s' = s \<or>
            (\<exists>pre i pl rest sc.
               players (game s) = pre @ (i, pl) # rest \<and>
               (\<forall>(j, q) \<in> set pre. \<not> can_score (game s) q) \<and>
               can_score (game s) pl \<and>
               map_of (scores (game s)) (p_team pl) = Some sc \<and>
               scores (game s') = AList.update (p_team pl) (sc + 1) (scores (game s)) \<and>
               (\<forall>t. t \<noteq> p_team pl \<longrightarrow>
                  map_of (scores (game s')) t = map_of (scores (game s)) t) \<and>
               (\<forall>(j, q) \<in> set (players (game s')).
                  \<not> p_red q \<and> \<not> p_blue q \<and> \<not> can_score (game s') q)))"
proof (cases "\<exists>x \<in> set (players (game s)). can_score (game s) (snd x)")
  case False
  then have none: "\<forall>(j, q) \<in> set (players (game s)). \<not> can_score (game s) q" by auto
  from check_score_none[OF wf_flags_present[OF wf] none] none show ?thesis by blast
next
  case True
  from split_list_first_prop[OF True] obtain pre x rest
    where sp: "players (game s) = pre @ x # rest" and cx: "can_score (game s) (snd x)"
      and np: "\<forall>y \<in> set pre. \<not> can_score (game s) (snd y)" by blast
  obtain i pl where x: "x = (i, pl)" by (cases x)
  from sp x have split: "players (game s) = pre @ (i, pl) # rest" by simp
  from cx x have can: "can_score (game s) pl" by simp
  from np have none: "\<forall>(j, q) \<in> set pre. \<not> can_score (game s) q" by auto
  from split have "(i, pl) \<in> set (players (game s))" by simp
  from wf_player_memD(2)[OF wf this] have tm: "p_team pl = ''red'' \<or> p_team pl = ''blue''" .
  from wf_scores_present[OF wf tm] obtain sc where sc: "map_of (scores (game s)) (p_team pl) = Some sc" ..
  from can have "carried_flags pl \<noteq> []" by (simp add: can_score_def)
  from carried_flags_two_teams[OF tm this] have n: "length (carried_flags pl) = 1" .
  let ?s' = "score_and_reset s (p_team pl) (sc + 1)"
  have run: "check_score s = Inr ?s'"
    using check_score_first[OF wf_flags_present[OF wf] split none can sc] n by simp
  have a: "scores (game ?s') = AList.update (p_team pl) (sc + 1) (scores (game s))"
    by (simp add: game_score_and_reset)
  have b: "\<forall>t. t \<noteq> p_team pl \<longrightarrow> map_of (scores (game ?s')) t = map_of (scores (game s)) t"
    by (simp add: a AList.update_conv')
  have c: "\<forall>(j, q) \<in> set (players (game ?s')). \<not> p_red q \<and> \<not> p_blue q \<and> \<not> can_score (game ?s') q"
  proof -
    have "\<not> p_red q \<and> \<not> p_blue q \<and> \<not> can_score (game ?s') q"
      if "(j, q) \<in> set (players (game ?s'))" for j q
    proof -
      from that players_cleared_all[of "players (game s)"]
      have "\<not> p_red q \<and> \<not> p_blue q" by (auto simp: game_score_and_reset)
      then show ?thesis by (simp add: cleared_cannot_score)
    qed
    then show ?thesis by blast
  qed
  from run split none can sc a b c show ?thesis by blast
qed

text \<open>
  Witness: both players of \<open>ex_two_scorers\<close> satisfy the scoring condition; one evaluation
  gives red one point and blue none, and a second evaluation changes nothing.
\<close>

theorem check_score_at_most_one_witness:
  "wf_game (game ex_two_scorers) \<and>
   map_option (can_score (game ex_two_scorers)) (map_of (players (game ex_two_scorers)) 1) = Some True \<and>
   map_option (can_score (game ex_two_scorers)) (map_of (players (game ex_two_scorers)) 2) = Some True \<and>
   (\<exists>s'. check_score ex_two_scorers = Inr s' \<and>
      scores (game s') = [(''red'', 1), (''blue'', 0)] \<and> check_score s' = Inr s')"
proof -
  from check_score_at_most_one[OF wf_ex_two_scorers]
  obtain s' where s': "check_score ex_two_scorers = Inr s'" by blast
  then have sc: "scores (game s') = [(''red'', 1), (''blue'', 0)]"
    by (auto simp: ex_two_scorers_check)
  from s' have "check_score s' = Inr s'"
    unfolding ex_two_scorers_check by (auto simp: check_score_def carried_flags_def)
  with s' sc wf_ex_two_scorers show ?thesis
    by (simp add: ex_two_scorers_eq can_score_def carried_flags_def const_defs)
qed

subsection \<open>Removal of a player\<close>

lemma map_fst_map_entry: "map fst (AList.map_entry k f xs) = map fst xs"
  by (induction xs) auto

lemma players_remove_player:
  "players (game (remove_player s i)) = AList.delete i (players (game s))"
  by (simp add: remove_player_def Let_def split: option.splits)

lemma flags_remove_player:
  assumes "map_of (players (game s)) i = Some pl"
  shows "flags (game (remove_player s i)) =
           (if p_blue pl then AList.map_entry ''blue'' reset_flag else id)
             ((if p_red pl then AList.map_entry ''red'' reset_flag else id) (flags (game s)))"
  using assms by (simp add: remove_player_def Let_def)

lemma handle_inputs_frame:
  assumes "handle_inputs g i m = Inr g'"
  shows "map fst (players g') = map fst (players g)" and "flags g' = flags g"
    and "scores g' = scores g" and "map_width g' = map_width g" and "map_height g' = map_height g"
  using assms
  by (auto simp: handle_inputs_def map_fst_map_entry split: option.splits if_splits json.splits)

lemma drain_frame:
  "map fst (players (drain i msgs g)) = map fst (players g) \<and> flags (drain i msgs g) = flags g \<and>
   scores (drain i msgs g) = scores g \<and> map_width (drain i msgs g) = map_width g \<and>
   map_height (drain i msgs g) = map_height g"
proof (induction msgs arbitrary: g)
  case Nil
  then show ?case by (simp add: drain_def)
next
  case (Cons m msgs)
  show ?case
  proof (cases "handle_inputs g i m")
    case (Inl e)
    then have "drain i (m # msgs) g = drain i msgs g" by (simp add: drain_def)
    with Cons.IH[of g] show ?thesis by simp
  next
    case (Inr g')
    then have "drain i (m # msgs) g = drain i msgs g'" by (simp add: drain_def)
    with Cons.IH[of g'] handle_inputs_frame[OF Inr] show ?thesis by simp
  qed
qed

lemma drain_all_frame:
  "map fst (players (fold (\<lambda>(i, q). drain i q) qs g)) = map fst (players g) \<and>
   flags (fold (\<lambda>(i, q). drain i q) qs g) = flags g \<and>
   scores (fold (\<lambda>(i, q). drain i q) qs g) = scores g \<and>
   map_width (fold (\<lambda>(i, q). drain i q) qs g) = map_width g \<and>
   map_height (fold (\<lambda>(i, q). drain i q) qs g) = map_height g"
proof (induction qs arbitrary: g)
  case Nil
  then show ?case by simp
next
  case (Cons a qs)
  obtain i q where a: "a = (i, q)" by (cases a)
  from Cons.IH[of "drain i q g"] drain_frame[of i q g] a show ?case by simp
qed

lemma process_inputs_frame:
  "map fst (players (game (process_inputs s))) = map fst (players (game s))"
  "flags (game (process_inputs s)) = flags (game s)"
  "scores (game (process_inputs s)) = scores (game s)"
  "running (process_inputs s) = running s" "outbox (process_inputs s) = outbox s"
  "client_sockets (process_inputs s) = client_sockets s"
  using drain_all_frame[of "input_queues s" "game s"] by (simp_all add: process_inputs_def)

lemma update_flags_carrier:
  assumes "(k, f) \<in> set (flags (update_flags g))" and "f_carrier f = Some c"
  shows "c \<in> set (map fst (players g))"
proof -
  from assms(1) obtain f0 where f0: "(k, f0) \<in> set (flags g)"
    and f: "f = (case f_carrier f0 of
                  None \<Rightarrow> f0
                | Some c \<Rightarrow>
                    (case map_of (players g) c of
                       None \<Rightarrow> f0\<lparr>f_carrier := None, f_x := f_spawn_x f0, f_y := f_spawn_y f0\<rparr>
                     | Some pl \<Rightarrow> f0\<lparr>f_x := p_x pl, f_y := p_y pl\<rparr>))"
    by (auto simp: update_flags_def AList.map_ran_def)
  from f assms(2) have "map_of (players g) c \<noteq> None"
    by (auto split: option.splits)
  then show ?thesis by (auto simp: map_of_eq_None_iff)
qed

lemma update_flags_frame:
  "players (update_flags g) = players g" "scores (update_flags g) = scores g"
  "map fst (flags (update_flags g)) = map fst (flags g)"
  by (simp_all add: update_flags_def)

lemma check_score_loop_cases:
  assumes "check_score_loop s ps = Inr s'"
  shows "s' = s \<or> (\<exists>t n. s' = score_and_reset s t n)"
  using assms
proof (induction ps)
  case Nil
  then show ?case by simp
next
  case (Cons a ps)
  obtain i pl where a: "a = (i, pl)" by (cases a)
  from Cons.prems Cons.IH show ?case unfolding a
    by (auto simp: Let_def split: if_splits option.splits)
qed

lemma check_score_cases:
  assumes "check_score s = Inr s'"
  shows "s' = s \<or> (\<exists>t n. s' = score_and_reset s t n)"
  using assms check_score_loop_cases by (simp add: check_score_def)

lemma score_and_reset_frame:
  "map fst (players (game (score_and_reset s t n))) = map fst (players (game s))"
  "client_sockets (score_and_reset s t n) = client_sockets s"
  by (simp_all add: score_and_reset_def Let_def broadcast_def)

lemma check_score_carrier:
  assumes "check_score s = Inr s'" and "(k, f) \<in> set (flags (game s'))" and "f_carrier f = Some c"
  shows "(k, f) \<in> set (flags (game s))"
proof -
  from check_score_cases[OF assms(1)] show ?thesis
  proof
    assume "s' = s"
    with assms(2) show ?thesis by simp
  next
    assume "\<exists>t n. s' = score_and_reset s t n"
    then obtain t n where "s' = score_and_reset s t n" by blast
    with assms(2) flags_reset_all[of "flags (game s)"] have "f_carrier f = None"
      by (auto simp: game_score_and_reset)
    with assms(3) show ?thesis by simp
  qed
qed

lemma check_score_players:
  assumes "check_score s = Inr s'"
  shows "map fst (players (game s')) = map fst (players (game s))"
  using check_score_cases[OF assms] score_and_reset_frame(1) by auto

text \<open>The snapshot a game-loop iteration broadcasts names only players of the world.\<close>

lemma tick_snapshot:
  assumes "tick s = Inr s'"
  shows "\<exists>snap. last (outbox s') = (client_sockets s', Update snap) \<and>
           (\<forall>(tm, col, fx, fy, c) \<in> set (s_flags snap).
              \<forall>j. c = Some j \<longrightarrow> j \<in> set (map fst (players (game s)))) \<and>
           map fst (s_players snap) = map fst (players (game s))"
proof -
  let ?s1 = "process_inputs s"
  let ?s2 = "?s1\<lparr>game := update_flags (game ?s1)\<rparr>"
  from assms obtain s3 where cs: "check_score ?s2 = Inr s3"
    and s': "s' = broadcast s3 (Update (serialize (game s3)))"
    by (auto simp: tick_def Let_def split: sum.splits)
  let ?snap = "serialize (game s3)"
  have keys: "map fst (players (game s3)) = map fst (players (game s))"
    using check_score_players[OF cs] by (simp add: update_flags_frame process_inputs_frame)
  have a: "last (outbox s') = (client_sockets s', Update ?snap)"
    by (simp add: s' broadcast_def)
  have b: "\<forall>(tm, col, fx, fy, c) \<in> set (s_flags ?snap).
             \<forall>j. c = Some j \<longrightarrow> j \<in> set (map fst (players (game s)))"
  proof -
    have "j \<in> set (map fst (players (game s)))"
      if "(k, f) \<in> set (flags (game s3))" and "f_carrier f = Some j" for k f j
    proof -
      from check_score_carrier[OF cs that] have "(k, f) \<in> set (flags (update_flags (game ?s1)))"
        by simp
      from update_flags_carrier[OF this that(2)] show ?thesis
        by (simp add: process_inputs_frame)
    qed
    then show ?thesis by (auto simp: serialize_def)
  qed
  have c: "map fst (s_players ?snap) = map fst (players (game s))"
    using keys by (simp add: serialize_def case_prod_beta comp_def)
  from a b c show ?thesis by blast
qed

text \<open>
  What removal does release. When a player whose indicator for flag \<open>t\<close> is set is
  removed, the state that \<^verbatim>\<open>remove_player\<close> returns has the player deleted from the
  world and, together with that, flag \<open>t\<close> without a carrier and back at its spawn
  position. If the world was well formed and carrier consistent, no flag of that state
  names the removed player as its carrier. In any case the snapshot of the next game-loop
  iteration lists no flag whose carrier is the removed player, and does not list the
  player.
\<close>

theorem remove_player_releases_flag:
  assumes pl: "map_of (players (game s)) i = Some pl"
    and c: "carries pl t"
    and fl: "map_of (flags (game s)) t = Some f"
  shows "map_of (players (game (remove_player s i))) i = None \<and>
         (\<exists>f'. map_of (flags (game (remove_player s i))) t = Some f' \<and>
               f_carrier f' = None \<and> f_x f' = f_spawn_x f \<and> f_y f' = f_spawn_y f \<and>
               f_spawn_x f' = f_spawn_x f \<and> f_spawn_y f' = f_spawn_y f) \<and>
         (wf_game (game s) \<and> carrier_consistent (game s) \<longrightarrow>
            (\<forall>(k, f') \<in> set (flags (game (remove_player s i))). f_carrier f' \<noteq> Some i)) \<and>
         (\<forall>s'. tick (remove_player s i) = Inr s' \<longrightarrow>
               (\<exists>snap. last (outbox s') = (client_sockets s', Update snap) \<and>
                  (\<forall>(tm, col, fx, fy, c) \<in> set (s_flags snap). c \<noteq> Some i) \<and>
                  i \<notin> set (map fst (s_players snap))))"
proof -
  have clean: "\<forall>(k, f') \<in> set (flags (game (remove_player s i))). f_carrier f' \<noteq> Some i"
    if wf: "wf_game (game s)" and cc: "carrier_consistent (game s)"
  proof -
    from wf obtain fr fb where fl2: "flags (game s) = [(''red'', fr), (''blue'', fb)]"
      and tr: "f_team fr = ''red''" and tb: "f_team fb = ''blue''" by (rule wf_flagsD)
    from pl have mem: "(i, pl) \<in> set (players (game s))" by (rule map_of_SomeD)
    from cc mem fl2 tr tb have "(f_carrier fr = Some i) = p_red pl" "(f_carrier fb = Some i) = p_blue pl"
      by (auto simp: carrier_consistent_def carries_def)
    then show ?thesis
      by (auto simp: flags_remove_player[OF pl] fl2 reset_flag_def)
  qed
  have gone: "map_of (players (game (remove_player s i))) i = None"
    by (simp add: players_remove_player AList.delete_conv')
  have keys: "i \<notin> set (map fst (players (game (remove_player s i))))"
    by (simp add: players_remove_player AList.delete_keys)
  have released: "map_of (flags (game (remove_player s i))) t = Some (reset_flag f)"
    using c fl by (auto simp: flags_remove_player[OF pl] carries_def AList.map_of_map_entry)
  have snap: "\<exists>snap. last (outbox s') = (client_sockets s', Update snap) \<and>
                  (\<forall>(tm, col, fx, fy, c) \<in> set (s_flags snap). c \<noteq> Some i) \<and>
                  i \<notin> set (map fst (s_players snap))"
    if t: "tick (remove_player s i) = Inr s'" for s'
  proof -
    from tick_snapshot[OF t] obtain snap
      where a: "last (outbox s') = (client_sockets s', Update snap)"
        and b: "\<forall>(tm, col, fx, fy, c) \<in> set (s_flags snap).
                  \<forall>j. c = Some j \<longrightarrow> j \<in> set (map fst (players (game (remove_player s i))))"
        and d: "map fst (s_players snap) = map fst (players (game (remove_player s i)))"
      by blast
    from b keys have "\<forall>(tm, col, fx, fy, c) \<in> set (s_flags snap). c \<noteq> Some i" by fastforce
    moreover from d keys have "i \<notin> set (map fst (s_players snap))" by simp
    ultimately show ?thesis using a by blast
  qed
  from released have "\<exists>f'. map_of (flags (game (remove_player s i))) t = Some f' \<and>
               f_carrier f' = None \<and> f_x f' = f_spawn_x f \<and> f_y f' = f_spawn_y f \<and>
               f_spawn_x f' = f_spawn_x f \<and> f_spawn_y f' = f_spawn_y f"
    by (simp add: reset_flag_def)
  with gone clean snap show ?thesis by blast
qed

text \<open>
  An instance: in \<open>ex_picked\<close> player 2 carries the red flag. After its removal the red
  flag is free and at \<open>(50, 300)\<close>, and the next iteration of the game loop returns.
\<close>

lemma ex_picked_removed_tick:
  "\<exists>s'. tick (remove_player (server_of ex_picked) 2) = Inr s'"
  by (simp add: tick_def remove_player_def server_defs ex_picked_eq process_inputs_def
      drain_def update_flags_def check_score_def carried_flags_def Let_def reset_flag_def)

theorem remove_player_releases_flag_witness:
  "map_of (players (game (remove_player (server_of ex_picked) 2))) 2 = None \<and>
   map_option f_carrier (map_of (flags (game (remove_player (server_of ex_picked) 2))) ''red'') =
     Some None \<and>
   map_option f_x (map_of (flags (game (remove_player (server_of ex_picked) 2))) ''red'') = Some 50 \<and>
   map_option f_y (map_of (flags (game (remove_player (server_of ex_picked) 2))) ''red'') = Some 300 \<and>
   (\<exists>s' snap. tick (remove_player (server_of ex_picked) 2) = Inr s' \<and>
      last (outbox s') = (client_sockets s', Update snap) \<and>
      map (\<lambda>(tm, col, fx, fy, c). c) (s_flags snap) = [None, None])"
proof -
  have pl: "map_of (players (game (server_of ex_picked))) 2 =
      Some \<lparr>p_pid = 2, p_x = 50, p_y = 300, p_team = ''blue'', p_red = True, p_blue = False\<rparr>"
    by (simp add: server_defs ex_picked_eq)
  have c: "carries \<lparr>p_pid = 2, p_x = 50, p_y = 300, p_team = ''blue'', p_red = True, p_blue = False\<rparr> ''red''"
    by (simp add: carries_def)
  have fl: "map_of (flags (game (server_of ex_picked))) ''red'' =
      Some \<lparr>f_team = ''red'', f_spawn_x = 50, f_spawn_y = 300, f_x = 50, f_y = 300,
             f_carrier = Some 2, f_locked = None\<rparr>"
    by (simp add: server_defs ex_picked_eq)
  note rel = remove_player_releases_flag[OF pl c fl]
  from ex_picked_removed_tick obtain s' where t: "tick (remove_player (server_of ex_picked) 2) = Inr s'" ..
  from rel t obtain snap where sn: "last (outbox s') = (client_sockets s', Update snap)" by blast
  from t sn have "map (\<lambda>(tm, col, fx, fy, c). c) (s_flags snap) = [None, None]"
    by (auto simp add: tick_def remove_player_def server_defs ex_picked_eq process_inputs_def
      drain_def update_flags_def check_score_def carried_flags_def Let_def reset_flag_def broadcast_def
      serialize_def)
  with rel t sn show ?thesis by auto
qed

lemma ex_stale_eq: "ex_stale =
  \<lparr>players = [(1, \<lparr>p_pid = 1, p_x = 950, p_y = 300, p_team = ''red'', p_red = False, p_blue = True\<rparr>),
              (2, \<lparr>p_pid = 2, p_x = 50, p_y = 300, p_team = ''blue'', p_red = False, p_blue = False\<rparr>)],
   flags = [(''red'', \<lparr>f_team = ''red'', f_spawn_x = 50, f_spawn_y = 300, f_x = 950, f_y = 300, f_carrier = Some 1, f_locked = None\<rparr>),
            (''blue'', \<lparr>f_team = ''blue'', f_spawn_x = 950, f_spawn_y = 300, f_x = 950, f_y = 300, f_carrier = Some 1, f_locked = None\<rparr>)],
   scores = [(''red'', 0), (''blue'', 0)], map_width = 1000, map_height = 600\<rparr>"
  unfolding ex_stale_def by (rule ex_stolen_pickup_eq)

lemma wf_ex_stale: "wf_game ex_stale"
  by (simp add: wf_game_def ex_stale_eq)




subsection \<open>Movement\<close>

lemma clamp_bounds: "0 \<le> (w::real) \<Longrightarrow> 0 \<le> max 0 (min w z) \<and> max 0 (min w z) \<le> w"
  by simp

lemma apply_move_eq:
  "apply_move UP DOWN LEFT RIGHT w h p =
     p\<lparr>p_x := max 0 (min (of_int w)
                (p_x p + (if RIGHT \<and> \<not> LEFT then 6 else if LEFT \<and> \<not> RIGHT then - 6 else 0))),
       p_y := max 0 (min (of_int h)
                (p_y p + (if DOWN \<and> \<not> UP then 6 else if UP \<and> \<not> DOWN then - 6 else 0)))\<rparr>"
  by (cases UP; cases DOWN; cases LEFT; cases RIGHT) (simp_all add: apply_move_def Let_def)

lemma apply_move_in_bounds:
  assumes "0 \<le> w" and "0 \<le> h"
  shows "0 \<le> p_x (apply_move UP DOWN LEFT RIGHT w h p) \<and>
         p_x (apply_move UP DOWN LEFT RIGHT w h p) \<le> of_int w \<and>
         0 \<le> p_y (apply_move UP DOWN LEFT RIGHT w h p) \<and>
         p_y (apply_move UP DOWN LEFT RIGHT w h p) \<le> of_int h"
proof -
  from assms have "0 \<le> (of_int w :: real)" "0 \<le> (of_int h :: real)" by simp_all
  from clamp_bounds[OF this(1)] clamp_bounds[OF this(2)] show ?thesis
    unfolding apply_move_eq by (simp del: max_less_iff_conj min_less_iff_conj)
qed

lemma set_map_entry:
  assumes "(j, q) \<in> set (AList.map_entry i f ps)"
  shows "(j, q) \<in> set ps \<or> (\<exists>q0. (j, q0) \<in> set ps \<and> q = f q0)"
  using assms by (induction ps) (auto split: if_splits)

lemma handle_inputs_in_bounds:
  assumes w: "0 \<le> map_width g" and h: "0 \<le> map_height g"
    and b: "\<forall>(j, q) \<in> set (players g). in_bounds g q"
    and r: "handle_inputs g i m = Inr g'"
  shows "\<forall>(j, q) \<in> set (players g'). in_bounds g' q"
proof -
  have "in_bounds g' q" if mem: "(j, q) \<in> set (players g')" for j q
  proof (cases "players g' = players g")
    case True
    with mem b handle_inputs_frame(4,5)[OF r] show ?thesis by (auto simp: in_bounds_def)
  next
    case False
    with r obtain mv where g': "g' = g\<lparr>players :=
        AList.map_entry i
          (apply_move (truthy (dict_get mv ''up'')) (truthy (dict_get mv ''down''))
             (truthy (dict_get mv ''left'')) (truthy (dict_get mv ''right''))
             (map_width g) (map_height g))
          (players g)\<rparr>"
      by (auto simp: handle_inputs_def split: option.splits if_splits json.splits)
    from mem set_map_entry[of j q i _ "players g"] g'
    consider "(j, q) \<in> set (players g)"
      | q0 where "q = apply_move (truthy (dict_get mv ''up'')) (truthy (dict_get mv ''down''))
             (truthy (dict_get mv ''left'')) (truthy (dict_get mv ''right''))
             (map_width g) (map_height g) q0"
      by auto
    then show ?thesis
    proof cases
      case 1
      with b g' show ?thesis by (auto simp: in_bounds_def)
    next
      case 2
      with apply_move_in_bounds[OF w h] g' show ?thesis by (simp add: in_bounds_def)
    qed
  qed
  then show ?thesis by blast
qed

lemma drain_in_bounds:
  assumes "0 \<le> map_width g" and "0 \<le> map_height g"
    and "\<forall>(j, q) \<in> set (players g). in_bounds g q"
  shows "\<forall>(j, q) \<in> set (players (drain i msgs g)). in_bounds (drain i msgs g) q"
  using assms
proof (induction msgs arbitrary: g)
  case Nil
  then show ?case by (simp add: drain_def)
next
  case (Cons m msgs)
  show ?case
  proof (cases "handle_inputs g i m")
    case (Inl e)
    then have "drain i (m # msgs) g = drain i msgs g" by (simp add: drain_def)
    with Cons.IH[OF Cons.prems] show ?thesis by simp
  next
    case (Inr g')
    then have d: "drain i (m # msgs) g = drain i msgs g'" by (simp add: drain_def)
    from handle_inputs_frame(4,5)[OF Inr] Cons.prems(1,2)
    have "0 \<le> map_width g'" "0 \<le> map_height g'" by simp_all
    from Cons.IH[OF this handle_inputs_in_bounds[OF Cons.prems Inr]] d show ?thesis by simp
  qed
qed

text \<open>
  C8. On a map with non-negative width and height, an input message whose \<^verbatim>\<open>move\<close> entry
  is a dict (or is missing) moves the sender by the fixed step of 6 along each axis on
  which exactly one of the two opposite keys is held, and not at all along an axis on
  which both or neither are held; the result is clamped to the map, so the new position
  lies in \<open>[0, map_width] \<times> [0, map_height]\<close>; nothing else changes. Draining any
  sequence of queued messages keeps every player of an in-bounds world in bounds.
\<close>

theorem handle_inputs_movement:
  assumes w: "0 \<le> map_width g" and h: "0 \<le> map_height g"
    and pl: "map_of (players g) i = Some p"
    and ty: "dict_get message ''type'' = JStr ''input''"
    and mv: "(case map_of message ''move'' of None \<Rightarrow> JObj [] | Some v \<Rightarrow> v) = JObj move"
  shows "(let UP = truthy (dict_get move ''up''); DOWN = truthy (dict_get move ''down'');
              LEFT = truthy (dict_get move ''left''); RIGHT = truthy (dict_get move ''right'');
              X = max 0 (min (of_int (map_width g))
                    (p_x p + (if RIGHT \<and> \<not> LEFT then 6 else if LEFT \<and> \<not> RIGHT then - 6 else 0)));
              Y = max 0 (min (of_int (map_height g))
                    (p_y p + (if DOWN \<and> \<not> UP then 6 else if UP \<and> \<not> DOWN then - 6 else 0)))
          in \<exists>g'. handle_inputs g i message = Inr g' \<and>
                map_of (players g') i = Some (p\<lparr>p_x := X, p_y := Y\<rparr>) \<and>
                (\<forall>j. j \<noteq> i \<longrightarrow> map_of (players g') j = map_of (players g) j) \<and>
                flags g' = flags g \<and> scores g' = scores g \<and>
                0 \<le> X \<and> X \<le> of_int (map_width g) \<and> 0 \<le> Y \<and> Y \<le> of_int (map_height g)) \<and>
         (\<forall>msgs. (\<forall>(j, q) \<in> set (players g). in_bounds g q) \<longrightarrow>
                 (\<forall>(j, q) \<in> set (players (drain i msgs g)). in_bounds (drain i msgs g) q))"
proof -
  define UP where "UP = truthy (dict_get move ''up'')"
  define DOWN where "DOWN = truthy (dict_get move ''down'')"
  define LEFT where "LEFT = truthy (dict_get move ''left'')"
  define RIGHT where "RIGHT = truthy (dict_get move ''right'')"
  define X where "X = max 0 (min (of_int (map_width g))
                    (p_x p + (if RIGHT \<and> \<not> LEFT then 6 else if LEFT \<and> \<not> RIGHT then - 6 else 0)))"
  define Y where "Y = max 0 (min (of_int (map_height g))
                    (p_y p + (if DOWN \<and> \<not> UP then 6 else if UP \<and> \<not> DOWN then - 6 else 0)))"
  define g' where "g' = g\<lparr>players := AList.map_entry i
                (apply_move UP DOWN LEFT RIGHT (map_width g) (map_height g)) (players g)\<rparr>"
  have step: "handle_inputs g i message = Inr g'"
    using pl ty mv by (simp add: handle_inputs_def g'_def UP_def DOWN_def LEFT_def RIGHT_def)
  have moved: "apply_move UP DOWN LEFT RIGHT (map_width g) (map_height g) p = p\<lparr>p_x := X, p_y := Y\<rparr>"
    unfolding X_def Y_def by (rule apply_move_eq)
  have me: "map_of (players g') i = Some (p\<lparr>p_x := X, p_y := Y\<rparr>)"
    using pl moved by (simp add: g'_def AList.map_of_map_entry)
  have others: "\<forall>j. j \<noteq> i \<longrightarrow> map_of (players g') j = map_of (players g) j"
    by (simp add: g'_def AList.map_of_map_entry)
  have frame: "flags g' = flags g" "scores g' = scores g" by (simp_all add: g'_def)
  have bounds: "0 \<le> X \<and> X \<le> of_int (map_width g) \<and> 0 \<le> Y \<and> Y \<le> of_int (map_height g)"
    using apply_move_in_bounds[OF w h, of UP DOWN LEFT RIGHT p] unfolding moved by simp
  have seq: "\<forall>msgs. (\<forall>(j, q) \<in> set (players g). in_bounds g q) \<longrightarrow>
                 (\<forall>(j, q) \<in> set (players (drain i msgs g)). in_bounds (drain i msgs g) q)"
    using drain_in_bounds[OF w h] by blast
  have "\<exists>g'. handle_inputs g i message = Inr g' \<and>
                map_of (players g') i = Some (p\<lparr>p_x := X, p_y := Y\<rparr>) \<and>
                (\<forall>j. j \<noteq> i \<longrightarrow> map_of (players g') j = map_of (players g) j) \<and>
                flags g' = flags g \<and> scores g' = scores g \<and>
                0 \<le> X \<and> X \<le> of_int (map_width g) \<and> 0 \<le> Y \<and> Y \<le> of_int (map_height g)"
    using step me others frame bounds by blast
  then show ?thesis
    unfolding Let_def X_def Y_def UP_def DOWN_def LEFT_def RIGHT_def using seq by (rule conjI)
qed

text \<open>
  Witness: player 1 of \<open>ex_start\<close> stands at \<open>(950, 300)\<close> and holds right, up and down:
  it moves to \<open>(956, 300)\<close>. Ten such messages take it to the right edge, \<open>x = 1000\<close>.
\<close>

theorem handle_inputs_movement_witness:
  "(\<exists>g'. handle_inputs ex_start 1 ex_input = Inr g' \<and>
      map_option p_x (map_of (players g') 1) = Some 956 \<and>
      map_option p_y (map_of (players g') 1) = Some 300) \<and>
   map_option p_x (map_of (players (drain 1 (replicate 10 ex_input) ex_start)) 1) = Some 1000 \<and>
   list_all (\<lambda>(j, q). in_bounds (drain 1 (replicate 10 ex_input) ex_start) q)
     (players (drain 1 (replicate 10 ex_input) ex_start))"
proof -
  have pl: "map_of (players ex_start) 1 =
      Some \<lparr>p_pid = 1, p_x = 950, p_y = 300, p_team = ''red'', p_red = False, p_blue = False\<rparr>"
    by (simp add: ex_start_eq)
  have b: "\<forall>(j, q) \<in> set (players ex_start). in_bounds ex_start q"
    by (simp add: ex_start_eq in_bounds_def)
  note mv = handle_inputs_movement[of ex_start 1 _ ex_input
      "[(''up'', JBool True), (''down'', JBool True), (''left'', JBool False), (''right'', JBool True)]",
      OF _ _ pl]
  have a: "\<exists>g'. handle_inputs ex_start 1 ex_input = Inr g' \<and>
      map_option p_x (map_of (players g') 1) = Some 956 \<and>
      map_option p_y (map_of (players g') 1) = Some 300"
    using mv by (auto simp: ex_start_eq ex_input_def dict_get_def Let_def)
  have c: "\<forall>(j, q) \<in> set (players (drain 1 (replicate 10 ex_input) ex_start)).
             in_bounds (drain 1 (replicate 10 ex_input) ex_start) q"
    using mv b by (simp add: ex_start_eq ex_input_def dict_get_def Let_def)
  have d: "map_option p_x (map_of (players (drain 1 (replicate 10 ex_input) ex_start)) 1) = Some 1000"
    by (simp add: drain_def ex_start_eq ex_input_def handle_inputs_def dict_get_def apply_move_def
        Let_def numeral_eq_Suc)
  from a c d show ?thesis by (simp add: list_all_iff)
qed

subsection \<open>The receive path\<close>

lemma handle_frames_malformed:
  assumes "newline \<in> set (l_buffer st)"
    and "loads (takeWhile (\<lambda>c. c \<noteq> newline) (l_buffer st)) = None"
  shows "handle_frames loads rnd i st =
           (Some ValueError, st\<lparr>l_buffer := tl (dropWhile (\<lambda>c. c \<noteq> newline) (l_buffer st))\<rparr>)"
  using assms by (subst handle_frames.simps) (simp add: Let_def)

lemma handle_frames_idle:
  assumes "newline \<notin> set (l_buffer st)"
  shows "handle_frames loads rnd i st = (None, st)"
  using assms by (subst handle_frames.simps) simp

lemma handle_frames_pickup:
  assumes "newline \<in> set (l_buffer st)"
    and "loads (takeWhile (\<lambda>c. c \<noteq> newline) (l_buffer st)) = Some (JObj msg)"
    and "dict_get msg ''type'' = JStr ''pickup''"
  shows "handle_frames loads rnd i st =
           handle_frames loads rnd i
             (st\<lparr>l_buffer := tl (dropWhile (\<lambda>c. c \<noteq> newline) (l_buffer st)),
                 l_server := (l_server st)\<lparr>game := attempt_pickup (game (l_server st)) i\<rparr>\<rparr>)"
  using assms by (subst handle_frames.simps) (simp add: Let_def)

lemma pickup_line_eq:
  "pickup_line = [CHR ''{'', CHR 0x22, CHR ''t'', CHR ''y'', CHR ''p'', CHR ''e'', CHR 0x22, CHR '':'',
     CHR '' '', CHR 0x22, CHR ''p'', CHR ''i'', CHR ''c'', CHR ''k'', CHR ''u'', CHR ''p'', CHR 0x22,
     CHR ''}'']"
  by (simp add: pickup_line_def)

text \<open>
  C9 fails on the code. The listener of player 1 reads one chunk holding the malformed
  line \<^verbatim>\<open>{\<close> followed by a well-formed pickup request. \<^verbatim>\<open>json.loads\<close> is called with no
  handler of its own, so the parse error leaves the loop through the outer handler: the
  method returns, a disconnect message is put into the queue, and the pickup request
  behind the malformed frame is never handled (the world is unchanged). Without the
  malformed frame the same request is handled and the listener goes on reading.
\<close>

theorem malformed_frame_ends_receive_path:
  "snd (client_listener ascii_decode loads_ex zero_draws 1
          [Recv_bytes (''{'' @ [newline] @ pickup_line @ [newline])] ex_listener) = Ended \<and>
   game (l_server (fst (client_listener ascii_decode loads_ex zero_draws 1
          [Recv_bytes (''{'' @ [newline] @ pickup_line @ [newline])] ex_listener))) = ex_boundary \<and>
   map_of (input_queues (l_server (fst (client_listener ascii_decode loads_ex zero_draws 1
          [Recv_bytes (''{'' @ [newline] @ pickup_line @ [newline])] ex_listener)))) 1 =
     Some [[(''type'', JStr ''disconnect'')]] \<and>
   snd (client_listener ascii_decode loads_ex zero_draws 1
          [Recv_bytes (pickup_line @ [newline])] ex_listener) = Blocked \<and>
   game (l_server (fst (client_listener ascii_decode loads_ex zero_draws 1
          [Recv_bytes (pickup_line @ [newline])] ex_listener))) = attempt_pickup ex_boundary 1 \<and>
   attempt_pickup ex_boundary 1 \<noteq> ex_boundary"
proof -
  let ?bad = "''{'' @ [newline] @ pickup_line @ [newline]"
  let ?good = "pickup_line @ [newline]"
  have nl: "newline \<notin> set pickup_line" by (simp add: pickup_line_eq newline_def)
  have run: "running (l_server ex_listener)" by (simp add: ex_listener_def server_defs)
  have bad: "handle_frames loads_ex zero_draws 1 (ex_listener\<lparr>l_buffer := l_buffer ex_listener @ ?bad\<rparr>) =
      (Some ValueError, ex_listener\<lparr>l_buffer := ?good\<rparr>)"
    by (subst handle_frames_malformed)
      (simp_all add: ex_listener_def loads_ex_def newline_def pickup_line_eq)
  have tw: "takeWhile (\<lambda>c. c \<noteq> newline) ?good = pickup_line"
    and dw: "tl (dropWhile (\<lambda>c. c \<noteq> newline) ?good) = []"
    by (simp_all add: pickup_line_eq newline_def)
  have good1: "handle_frames loads_ex zero_draws 1 (ex_listener\<lparr>l_buffer := l_buffer ex_listener @ ?good\<rparr>) =
      handle_frames loads_ex zero_draws 1
        (ex_listener\<lparr>l_buffer := [],
           l_server := (l_server ex_listener)\<lparr>game := attempt_pickup (game (l_server ex_listener)) 1\<rparr>\<rparr>)"
    using handle_frames_pickup[of "ex_listener\<lparr>l_buffer := l_buffer ex_listener @ ?good\<rparr>"
        loads_ex "[(''type'', JStr ''pickup'')]" zero_draws 1] tw dw
    by (simp add: ex_listener_def loads_ex_def dict_get_def)
  have good: "handle_frames loads_ex zero_draws 1 (ex_listener\<lparr>l_buffer := l_buffer ex_listener @ ?good\<rparr>) =
      (None, ex_listener\<lparr>l_buffer := [],
           l_server := (l_server ex_listener)\<lparr>game := attempt_pickup (game (l_server ex_listener)) 1\<rparr>\<rparr>)"
    unfolding good1 by (rule handle_frames_idle) simp
  have g: "game (l_server ex_listener) = ex_boundary" by (simp add: ex_listener_def server_defs)
  have ne: "attempt_pickup ex_boundary 1 \<noteq> ex_boundary"
    by (rule flags_neq[where k = "''blue''"])
      (simp add: ex_boundary_eq attempt_pickup_def pickup_flag_def const_defs)
  have q: "map_of (input_queues (l_server ex_listener)) 1 = Some []"
    by (simp add: ex_listener_def server_defs ex_boundary_eq)
  show ?thesis
    using run bad good g ne q
    by (simp add: ascii_decode_def put_disconnect_def queue_put_def AList.map_of_map_entry)
qed

theorem malformed_frame_ends_receive_path_witness:
  "snd (client_listener ascii_decode loads_ex zero_draws 1
          [Recv_bytes (''{'' @ [newline] @ pickup_line @ [newline])] ex_listener) = Ended \<and>
   game (l_server (fst (client_listener ascii_decode loads_ex zero_draws 1
          [Recv_bytes (''{'' @ [newline] @ pickup_line @ [newline])] ex_listener))) \<noteq>
     attempt_pickup ex_boundary 1"
proof -
  note m = malformed_frame_ends_receive_path
  note ended = m[THEN conjunct1]
  note same = m[THEN conjunct2, THEN conjunct1]
  note differs = m[THEN conjunct2, THEN conjunct2, THEN conjunct2, THEN conjunct2, THEN conjunct2]
  from differs have "ex_boundary \<noteq> attempt_pickup ex_boundary 1" by (rule not_sym)
  then show ?thesis unfolding same using ended by (rule conjI[rotated])
qed

text \<open>
  In general: when the first complete line of the listener's buffer does not parse, the
  listener does what it does on a read failure or at end of stream. It puts a disconnect
  message into the connection's queue and returns, leaving the rest of the buffer and all
  later input unread; the world is not changed.
\<close>

theorem malformed_frame_is_disconnect:
  assumes run: "running (l_server st)"
    and ne: "data \<noteq> []"
    and dec: "decode data = Some text"
    and nl: "newline \<in> set (l_buffer st @ text)"
    and bad: "loads (takeWhile (\<lambda>c. c \<noteq> newline) (l_buffer st @ text)) = None"
  shows "client_listener decode loads rnd i (Recv_bytes data # rest) st =
           (put_disconnect i
              (st\<lparr>l_buffer := tl (dropWhile (\<lambda>c. c \<noteq> newline) (l_buffer st @ text))\<rparr>), Ended) \<and>
         client_listener decode loads rnd i (Recv_raises # rest) st = (put_disconnect i st, Ended) \<and>
         client_listener decode loads rnd i (Recv_bytes [] # rest) st = (put_disconnect i st, Ended) \<and>
         game (l_server (fst (client_listener decode loads rnd i (Recv_bytes data # rest) st))) =
           game (l_server st)"
proof -
  have "handle_frames loads rnd i (st\<lparr>l_buffer := l_buffer st @ text\<rparr>) =
      (Some ValueError,
       st\<lparr>l_buffer := tl (dropWhile (\<lambda>c. c \<noteq> newline) (l_buffer st @ text))\<rparr>)"
    using handle_frames_malformed[of "st\<lparr>l_buffer := l_buffer st @ text\<rparr>" loads rnd i] nl bad
    by simp
  then show ?thesis using run ne dec
    by (simp add: put_disconnect_def queue_put_def)
qed

theorem malformed_frame_is_disconnect_witness:
  "running (l_server ex_listener) \<and>
   loads_ex ''{'' = None \<and>
   client_listener ascii_decode loads_ex zero_draws 1
     [Recv_bytes (''{'' @ [newline]), Recv_bytes (pickup_line @ [newline])] ex_listener =
     (put_disconnect 1 ex_listener, Ended) \<and>
   client_listener ascii_decode loads_ex zero_draws 1
     [Recv_raises, Recv_bytes (pickup_line @ [newline])] ex_listener =
     (put_disconnect 1 ex_listener, Ended)"
proof -
  have run: "running (l_server ex_listener)" by (simp add: ex_listener_def server_defs)
  have b: "l_buffer ex_listener = []" by (simp add: ex_listener_def)
  have bad: "loads_ex ''{'' = None" by (simp add: loads_ex_def pickup_line_eq)
  from malformed_frame_is_disconnect[of ex_listener "''{'' @ [newline]" ascii_decode
      "''{'' @ [newline]" loads_ex zero_draws 1 "[Recv_bytes (pickup_line @ [newline])]", OF run]
  show ?thesis using run bad b
    by (simp add: ascii_decode_def newline_def ex_listener_def)
qed

subsection \<open>Well-formedness is preserved\<close>

lemma set_map_ran:
  "(k, v) \<in> set (AList.map_ran f al) \<longleftrightarrow> (\<exists>v0. (k, v0) \<in> set al \<and> v = f k v0)"
  by (auto simp: AList.map_ran_def)

lemma wf_game_players_map_entry:
  assumes wf: "wf_game g"
    and fp: "\<And>p. p_pid (fp p) = p_pid p \<and> p_team (fp p) = p_team p"
  shows "wf_game (g\<lparr>players := AList.map_entry i fp (players g)\<rparr>)"
proof -
  have "p_pid p = k \<and> (p_team p = ''red'' \<or> p_team p = ''blue'')"
    if "(k, p) \<in> set (AList.map_entry i fp (players g))" for k p
    using set_map_entry[OF that] wf fp by (auto simp: wf_game_def)
  then show ?thesis using wf by (auto simp: wf_game_def map_fst_map_entry)
qed

lemma wf_game_flags_map_entry:
  assumes wf: "wf_game g"
    and ff: "\<And>f. f_team (ff f) = f_team f"
  shows "wf_game (g\<lparr>flags := AList.map_entry k ff (flags g)\<rparr>)"
proof -
  have "f_team f = t" if "(t, f) \<in> set (AList.map_entry k ff (flags g))" for t f
    using set_map_entry[OF that] wf ff by (auto simp: wf_game_def)
  then show ?thesis using wf by (auto simp: wf_game_def map_fst_map_entry)
qed

lemma wf_game_players_map_ran:
  assumes wf: "wf_game g"
    and fp: "\<And>k p. p_pid (fp k p) = p_pid p \<and> p_team (fp k p) = p_team p"
  shows "wf_game (g\<lparr>players := AList.map_ran fp (players g)\<rparr>)"
proof -
  have "p_pid p = k \<and> (p_team p = ''red'' \<or> p_team p = ''blue'')"
    if "(k, p) \<in> set (AList.map_ran fp (players g))" for k p
  proof -
    from that obtain p0 where "(k, p0) \<in> set (players g)" "p = fp k p0"
      by (auto simp: set_map_ran)
    with wf fp[of k p0] show ?thesis by (auto simp: wf_game_def)
  qed
  then show ?thesis using wf by (auto simp: wf_game_def)
qed

lemma wf_game_flags_map_ran:
  assumes wf: "wf_game g"
    and ff: "\<And>k f. f_team (ff k f) = f_team f"
  shows "wf_game (g\<lparr>flags := AList.map_ran ff (flags g)\<rparr>)"
proof -
  have "f_team f = k" if "(k, f) \<in> set (AList.map_ran ff (flags g))" for k f
  proof -
    from that obtain f0 where "(k, f0) \<in> set (flags g)" "f = ff k f0"
      by (auto simp: set_map_ran)
    with wf ff[of k f0] show ?thesis by (auto simp: wf_game_def)
  qed
  then show ?thesis using wf by (auto simp: wf_game_def)
qed

lemma wf_pickup_flag:
  assumes "wf_game g"
  shows "wf_game (pickup_flag i k g)"
proof -
  have "wf_game (g\<lparr>players := AList.map_entry i fp (players g),
                   flags := AList.map_entry k ff (flags g)\<rparr>)"
    if "\<And>p. p_pid (fp p) = p_pid p \<and> p_team (fp p) = p_team p" "\<And>f. f_team (ff f) = f_team f"
    for fp ff
    using wf_game_flags_map_entry[OF wf_game_players_map_entry[OF assms that(1), where i = i]
        that(2), where k = k]
    by simp
  then show ?thesis using assms
    by (auto simp: pickup_flag_def Let_def split: option.splits)
qed

lemma wf_fold_pickup:
  assumes "wf_game g"
  shows "wf_game (fold (pickup_flag i) ks g)"
  using assms by (induction ks arbitrary: g) (simp_all add: wf_pickup_flag)

lemma wf_attempt_pickup:
  assumes "wf_game g"
  shows "wf_game (attempt_pickup g i)"
  using assms by (simp add: attempt_pickup_def wf_fold_pickup split: option.splits)

lemma wf_attempt_steal:
  assumes "wf_game g"
  shows "wf_game (attempt_steal g a d t draw)"
proof -
  have "wf_game (g\<lparr>players := AList.map_entry a fa (AList.map_entry d fd (players g)),
                   flags := AList.map_entry t ff (flags g)\<rparr>)"
    if "\<And>p. p_pid (fa p) = p_pid p \<and> p_team (fa p) = p_team p"
      "\<And>p. p_pid (fd p) = p_pid p \<and> p_team (fd p) = p_team p"
      "\<And>f. f_team (ff f) = f_team f"
    for fa fd ff
    using wf_game_flags_map_entry[OF
        wf_game_players_map_entry[OF wf_game_players_map_entry[OF assms that(2), where i = d]
          that(1), where i = a]
        that(3), where k = t]
    by simp
  then show ?thesis using assms
    by (auto simp: attempt_steal_def split: option.splits)
qed

lemma wf_handle_inputs:
  assumes "wf_game g" and "handle_inputs g i m = Inr g'"
  shows "wf_game g'"
proof -
  have "wf_game (g\<lparr>players := AList.map_entry i (apply_move U D L R w h) (players g)\<rparr>)"
    for U D L R w h
    by (rule wf_game_players_map_entry[OF assms(1)]) (simp add: apply_move_eq)
  then show ?thesis using assms
    by (auto simp: handle_inputs_def split: option.splits if_splits json.splits)
qed

lemma wf_drain:
  assumes "wf_game g"
  shows "wf_game (drain i msgs g)"
  using assms
proof (induction msgs arbitrary: g)
  case Nil
  then show ?case by (simp add: drain_def)
next
  case (Cons m msgs)
  show ?case
  proof (cases "handle_inputs g i m")
    case (Inl e)
    then have "drain i (m # msgs) g = drain i msgs g" by (simp add: drain_def)
    with Cons.IH[OF Cons.prems] show ?thesis by simp
  next
    case (Inr g')
    then have "drain i (m # msgs) g = drain i msgs g'" by (simp add: drain_def)
    with Cons.IH[OF wf_handle_inputs[OF Cons.prems Inr]] show ?thesis by simp
  qed
qed

lemma wf_drain_all:
  assumes "wf_game g"
  shows "wf_game (fold (\<lambda>(i, q). drain i q) qs g)"
  using assms by (induction qs arbitrary: g) (auto simp: wf_drain)

lemma wf_process_inputs:
  assumes "wf_game (game s)"
  shows "wf_game (game (process_inputs s))"
  using wf_drain_all[OF assms] by (simp add: process_inputs_def)

lemma wf_update_flags:
  assumes "wf_game g"
  shows "wf_game (update_flags g)"
  unfolding update_flags_def
  by (rule wf_game_flags_map_ran[OF assms]) (simp split: option.splits)

lemma wf_remove_player:
  assumes "wf_game (game s)"
  shows "wf_game (game (remove_player s i))"
proof -
  let ?g = "(game s)\<lparr>players := AList.delete i (players (game s))\<rparr>"
  have "set (AList.delete i (players (game s))) \<subseteq> set (players (game s))"
    by (auto simp: AList.delete_eq)
  with assms have g: "wf_game ?g"
    by (auto simp: wf_game_def AList.distinct_delete)
  have r: "wf_game (g\<lparr>flags := AList.map_entry k reset_flag (flags g)\<rparr>)" if "wf_game g" for g k
    by (rule wf_game_flags_map_entry[OF that]) (simp add: reset_flag_def)
  show ?thesis
  proof (cases "map_of (players (game s)) i")
    case None
    with g show ?thesis by (simp add: remove_player_def Let_def)
  next
    case (Some pl)
    from g r[OF g, where k = "''red''"] r[OF g, where k = "''blue''"]
      r[OF r[OF g, where k = "''red''"], where k = "''blue''"]
    show ?thesis using Some by (simp add: remove_player_def Let_def)
  qed
qed

lemma wf_game_players_update:
  assumes wf: "wf_game g" and pl: "p_pid pl = k" "p_team pl = ''red'' \<or> p_team pl = ''blue''"
  shows "wf_game (g\<lparr>players := AList.update k pl (players g)\<rparr>)"
proof -
  from wf have d: "distinct (map fst (AList.update k pl (players g)))"
    by (simp add: wf_game_def AList.distinct_update)
  have "p_pid p = j \<and> (p_team p = ''red'' \<or> p_team p = ''blue'')"
    if m: "(j, p) \<in> set (AList.update k pl (players g))" for j p
  proof -
    from m d have "map_of (AList.update k pl (players g)) j = Some p" by simp
    then have "(j = k \<and> p = pl) \<or> map_of (players g) j = Some p"
      by (auto simp: AList.update_conv' split: if_splits)
    with pl wf show ?thesis by (auto simp: wf_game_def dest!: map_of_SomeD)
  qed
  with d wf show ?thesis by (auto simp: wf_game_def)
qed

lemma wf_accept:
  assumes "wf_game (game s)"
  shows "wf_game (game (accept s))"
proof (cases "map_height (game s) - 200 = 0")
  case True
  with assms show ?thesis by (simp add: accept_def Let_def)
next
  case False
  then obtain pl where g: "game (accept s) =
      (game s)\<lparr>players := AList.update (next_player_id s) pl (players (game s))\<rparr>"
    and pl: "p_pid pl = next_player_id s" "p_team pl = ''red'' \<or> p_team pl = ''blue''"
    by (simp add: accept_def Let_def)
  from wf_game_players_update[OF assms pl] g show ?thesis by simp
qed

lemma wf_score_and_reset:
  assumes "wf_game (game s)" and "t = ''red'' \<or> t = ''blue''"
  shows "wf_game (game (score_and_reset s t n))"
proof -
  from assms have k: "map fst (AList.update t n (scores (game s))) = [''red'', ''blue'']"
    by (auto simp: wf_game_def AList.update_keys)
  have "wf_game ((game s)\<lparr>flags := AList.map_ran (\<lambda>_. reset_flag) (flags (game s))\<rparr>)"
    by (rule wf_game_flags_map_ran[OF assms(1)]) (simp add: reset_flag_def)
  from wf_game_players_map_ran[OF this, of "\<lambda>_ p. p\<lparr>p_red := False, p_blue := False\<rparr>"] k
  show ?thesis by (simp add: game_score_and_reset wf_game_def)
qed

subsection \<open>No player holds both indicators\<close>

lemma one_indicator_map_entry:
  assumes "one_indicator g"
    and "\<And>p. \<not> (p_red (f p) \<and> p_blue (f p)) \<or> (p_red (f p) = p_red p \<and> p_blue (f p) = p_blue p)"
    and "players g' = AList.map_entry i f (players g)"
  shows "one_indicator g'"
proof -
  have "\<not> (p_red q \<and> p_blue q)" if "(j, q) \<in> set (AList.map_entry i f (players g))" for j q
    using set_map_entry[OF that] assms(1,2) by (fastforce simp: one_indicator_def)
  then show ?thesis using assms(3) by (auto simp: one_indicator_def)
qed

lemma one_indicator_upd:
  assumes "one_indicator g"
    and "\<forall>p. \<not> (p_red (f p) \<and> p_blue (f p)) \<or> (p_red (f p) = p_red p \<and> p_blue (f p) = p_blue p)"
  shows "one_indicator (g\<lparr>players := AList.map_entry i f (players g)\<rparr>)"
    and "one_indicator (g\<lparr>players := AList.map_entry i f (players g), flags := fs\<rparr>)"
  using assms by (auto intro: one_indicator_map_entry[where g = g and i = i and f = f])

lemma one_indicator_pickup_flag:
  assumes "one_indicator g"
  shows "one_indicator (pickup_flag i k g)"
proof (cases "map_of (players g) i")
  case None
  with assms show ?thesis by (simp add: pickup_flag_def)
next
  case p: (Some p)
  show ?thesis
  proof (cases "map_of (flags g) k")
    case None
    with assms p show ?thesis by (simp add: pickup_flag_def)
  next
    case (Some fl)
    with assms p show ?thesis
      by (simp add: pickup_flag_def Let_def one_indicator_upd)
  qed
qed

lemma one_indicator_attempt_pickup:
  assumes "one_indicator g"
  shows "one_indicator (attempt_pickup g i)"
proof -
  have "one_indicator (fold (pickup_flag i) ks g)" for ks
    using assms by (induction ks arbitrary: g) (simp_all add: one_indicator_pickup_flag)
  with assms show ?thesis by (simp add: attempt_pickup_def split: option.splits)
qed

lemma one_indicator_attempt_steal:
  assumes "one_indicator g"
  shows "one_indicator (attempt_steal g a d t draw)"
proof (cases "attempt_steal g a d t draw = g")
  case True
  with assms show ?thesis by simp
next
  case False
  let ?g1 = "g\<lparr>players := AList.map_entry d (\<lambda>p. p\<lparr>p_red := False, p_blue := False\<rparr>) (players g)\<rparr>"
  from False have pl: "players (attempt_steal g a d t draw) =
      AList.map_entry a (\<lambda>p. p\<lparr>p_red := (t = ''red''), p_blue := (t = ''blue'')\<rparr>) (players ?g1)"
    by (auto simp: attempt_steal_def split: option.splits if_splits)
  have "one_indicator ?g1"
    by (rule one_indicator_map_entry[OF assms, where i = d and
          f = "\<lambda>p. p\<lparr>p_red := False, p_blue := False\<rparr>"]) simp_all
  from this _ pl show ?thesis
    by (rule one_indicator_map_entry) simp
qed

lemma one_indicator_handle_inputs:
  assumes "one_indicator g" and "handle_inputs g i m = Inr g'"
  shows "one_indicator g'"
proof (cases "g' = g")
  case True
  with assms show ?thesis by simp
next
  case False
  with assms(2) obtain U D L R where "g' = g\<lparr>players :=
      AList.map_entry i (apply_move U D L R (map_width g) (map_height g)) (players g)\<rparr>"
    by (auto simp: handle_inputs_def split: option.splits if_splits json.splits)
  moreover have "one_indicator (g\<lparr>players :=
      AList.map_entry i (apply_move U D L R (map_width g) (map_height g)) (players g)\<rparr>)"
    by (rule one_indicator_upd(1)[OF assms(1)]) (simp add: apply_move_eq)
  ultimately show ?thesis by simp
qed

lemma one_indicator_drain:
  assumes "one_indicator g"
  shows "one_indicator (drain i msgs g)"
  using assms
proof (induction msgs arbitrary: g)
  case Nil
  then show ?case by (simp add: drain_def)
next
  case (Cons m msgs)
  show ?case
  proof (cases "handle_inputs g i m")
    case (Inl e)
    then have "drain i (m # msgs) g = drain i msgs g" by (simp add: drain_def)
    with Cons.IH[OF Cons.prems] show ?thesis by simp
  next
    case (Inr g')
    then have "drain i (m # msgs) g = drain i msgs g'" by (simp add: drain_def)
    with Cons.IH[OF one_indicator_handle_inputs[OF Cons.prems Inr]] show ?thesis by simp
  qed
qed

lemma one_indicator_process_inputs:
  assumes "one_indicator (game s)"
  shows "one_indicator (game (process_inputs s))"
proof -
  have "one_indicator (fold (\<lambda>(i, q). drain i q) qs g)" if "one_indicator g" for qs g
    using that by (induction qs arbitrary: g) (auto simp: one_indicator_drain)
  from this[OF assms] show ?thesis by (simp add: process_inputs_def)
qed

lemma one_indicator_remove_player:
  assumes "one_indicator (game s)"
  shows "one_indicator (game (remove_player s i))"
proof -
  have "set (AList.delete i (players (game s))) \<subseteq> set (players (game s))"
    by (auto simp: AList.delete_eq)
  with assms show ?thesis
    by (auto simp: one_indicator_def players_remove_player)
qed

lemma set_update_cases:
  assumes "(j, q) \<in> set (AList.update k v ps)"
  shows "q = v \<or> (j, q) \<in> set ps"
  using assms by (induction ps) (auto split: if_splits)

lemma one_indicator_accept:
  assumes "one_indicator (game s)"
  shows "one_indicator (game (accept s))"
proof (cases "map_height (game s) - 200 = 0")
  case True
  with assms show ?thesis by (simp add: accept_def Let_def)
next
  case False
  then obtain pl where g: "players (game (accept s)) =
      AList.update (next_player_id s) pl (players (game s))"
    and pl: "\<not> p_red pl" "\<not> p_blue pl"
    by (simp add: accept_def Let_def)
  have "\<not> (p_red q \<and> p_blue q)"
    if "(j, q) \<in> set (AList.update (next_player_id s) pl (players (game s)))" for j q
  proof -
    from set_update_cases[OF that] have "q = pl \<or> (j, q) \<in> set (players (game s))" .
    with pl assms show ?thesis by (auto simp: one_indicator_def)
  qed
  with g show ?thesis by (auto simp: one_indicator_def)
qed

lemma one_indicator_score_and_reset: "one_indicator (game (score_and_reset s t n))"
  using players_cleared_all[of "players (game s)"]
  by (auto simp: one_indicator_def game_score_and_reset)

subsection \<open>The players and the client sockets\<close>

lemma keys_pickup_flag: "map fst (players (pickup_flag i k g)) = map fst (players g)"
  by (simp add: pickup_flag_def Let_def map_fst_map_entry split: option.splits)

lemma keys_attempt_pickup: "map fst (players (attempt_pickup g i)) = map fst (players g)"
proof -
  have "map fst (players (fold (pickup_flag i) ks g)) = map fst (players g)" for ks
    by (induction ks arbitrary: g) (simp_all add: keys_pickup_flag)
  then show ?thesis by (simp add: attempt_pickup_def split: option.splits)
qed

lemma keys_attempt_steal: "map fst (players (attempt_steal g a d t draw)) = map fst (players g)"
  by (simp add: attempt_steal_def map_fst_map_entry split: option.splits)

lemma sockets_accept:
  assumes "client_sockets s = map fst (players (game s))"
  shows "client_sockets (accept s) = map fst (players (game (accept s)))"
  using assms by (simp add: accept_def Let_def dict_add_key_def AList.update_keys)

lemma sockets_remove_player:
  assumes "client_sockets s = map fst (players (game s))"
  shows "client_sockets (remove_player s i) = map fst (players (game (remove_player s i)))"
proof -
  have "client_sockets (remove_player s i) = removeAll i (client_sockets s)"
    by (simp add: remove_player_def Let_def split: option.splits)
  with assms show ?thesis by (simp add: players_remove_player AList.delete_keys)
qed

subsection \<open>The invariant of a run\<close>

lemma over_rounds_broadcast:
  "over_rounds (broadcast s m) = over_rounds s @ (if is_over m then [(client_sockets s, m)] else [])"
  by (simp add: broadcast_def over_rounds_def)

lemma scores_mono_refl: "scores_mono s s"
  by (simp add: scores_mono_def)

lemma scores_mono_trans: "scores_mono s s' \<Longrightarrow> scores_mono s' s'' \<Longrightarrow> scores_mono s s''"
  unfolding scores_mono_def by (meson order_trans)

lemma scores_mono_same: "scores (game s') = scores (game s) \<Longrightarrow> scores_mono s s'"
  by (simp add: scores_mono_def score_of_def)

lemma inv_frame:
  assumes "server_inv s" and "wf_game (game s')"
    and "client_sockets s' = map fst (players (game s'))" and "one_indicator (game s')"
    and "scores (game s') = scores (game s)" and "running s' = running s"
    and "over_rounds s' = over_rounds s"
  shows "server_inv s'"
  using assms by (cases "running s") (auto simp: server_inv_def)

lemma wf_scoresD:
  assumes "wf_game g"
  obtains a b where "scores g = [(''red'', a), (''blue'', b)]"
proof -
  from assms have "map fst (scores g) = [''red'', ''blue'']" by (simp add: wf_game_def)
  then obtain a b where "scores g = [(''red'', a), (''blue'', b)]"
    by (auto simp: map_eq_Cons_conv)
  then show thesis by (rule that)
qed

text \<open>On a well-formed world \<^verbatim>\<open>check_score\<close> returns: nothing changes or one team scores a point.\<close>

lemma check_score_wf:
  assumes wf: "wf_game (game s)"
  shows "check_score s = Inr s \<or>
         (\<exists>t sc. (t = ''red'' \<or> t = ''blue'') \<and> map_of (scores (game s)) t = Some sc \<and>
                 players (game s) \<noteq> [] \<and>
                 check_score s = Inr (score_and_reset s t (sc + 1)))"
proof (cases "\<exists>x \<in> set (players (game s)). can_score (game s) (snd x)")
  case False
  then have "\<forall>(j, q) \<in> set (players (game s)). \<not> can_score (game s) q" by auto
  from check_score_none[OF wf_flags_present[OF wf] this] show ?thesis by simp
next
  case True
  from split_list_first_prop[OF True] obtain pre x rest
    where sp: "players (game s) = pre @ x # rest" and cx: "can_score (game s) (snd x)"
      and np: "\<forall>y \<in> set pre. \<not> can_score (game s) (snd y)" by blast
  obtain i pl where x: "x = (i, pl)" by (cases x)
  from sp x have split: "players (game s) = pre @ (i, pl) # rest" by simp
  from cx x have can: "can_score (game s) pl" by simp
  from np have none: "\<forall>(j, q) \<in> set pre. \<not> can_score (game s) q" by auto
  from split have mem: "(i, pl) \<in> set (players (game s))" by simp
  from wf_player_memD(2)[OF wf mem] have tm: "p_team pl = ''red'' \<or> p_team pl = ''blue''" .
  from wf_scores_present[OF wf tm] obtain sc where sc: "map_of (scores (game s)) (p_team pl) = Some sc" ..
  from can have "carried_flags pl \<noteq> []" by (simp add: can_score_def)
  from carried_flags_two_teams[OF tm this] have n: "length (carried_flags pl) = 1" .
  have "check_score s = Inr (score_and_reset s (p_team pl) (sc + 1))"
    using check_score_first[OF wf_flags_present[OF wf] split none can sc] n by simp
  moreover from mem have "players (game s) \<noteq> []" by auto
  ultimately show ?thesis using tm sc by blast
qed

lemma score_and_reset_fields:
  "running (score_and_reset s t n) = (if SCORE_TO_WIN \<le> n then False else running s)"
  "over_rounds (score_and_reset s t n) =
     over_rounds s @ (if SCORE_TO_WIN \<le> n then [(client_sockets s, Over t)] else [])"
  "outbox (score_and_reset s t n) =
     outbox s @ (if SCORE_TO_WIN \<le> n then [(client_sockets s, Over t)] else [])"
  "scores (game (score_and_reset s t n)) = AList.update t n (scores (game s))"
  "client_sockets (score_and_reset s t n) = client_sockets s"
  by (simp_all add: score_and_reset_def Let_def broadcast_def over_rounds_def)

lemma inv_score_and_reset:
  assumes inv: "server_inv s" and run: "running s"
    and t: "t = ''red'' \<or> t = ''blue''" and sc: "map_of (scores (game s)) t = Some sc"
    and ne: "players (game s) \<noteq> []"
  shows "server_inv (score_and_reset s t (sc + 1))" and "scores_mono s (score_and_reset s t (sc + 1))"
proof -
  from inv have wf: "wf_game (game s)" and so: "client_sockets s = map fst (players (game s))"
    by (simp_all add: server_inv_def)
  from so ne have cs: "client_sockets s \<noteq> []" by simp
  from wf obtain a b where ab: "scores (game s) = [(''red'', a), (''blue'', b)]" by (rule wf_scoresD)
  from inv run ab have bounds: "0 \<le> a" "a < SCORE_TO_WIN" "0 \<le> b" "b < SCORE_TO_WIN"
    and ov: "over_rounds s = []"
    by (simp_all add: server_inv_def)
  note wf' = wf_score_and_reset[OF wf t, of "sc + 1"]
  have so': "client_sockets (score_and_reset s t (sc + 1)) =
      map fst (players (game (score_and_reset s t (sc + 1))))"
    using so by (simp add: score_and_reset_fields score_and_reset_frame)
  note one' = one_indicator_score_and_reset[of s t "sc + 1"]
  from t show "server_inv (score_and_reset s t (sc + 1))"
  proof
    assume r: "t = ''red''"
    with sc ab have "sc = a" by simp
    with r ab bounds ov run wf' so' one' cs show ?thesis
      by (auto simp: server_inv_def score_and_reset_fields)
  next
    assume bl: "t = ''blue''"
    with sc ab have "sc = b" by simp
    with bl ab bounds ov run wf' so' one' cs show ?thesis
      by (auto simp: server_inv_def score_and_reset_fields)
  qed
  from t sc ab show "scores_mono s (score_and_reset s t (sc + 1))"
    by (auto simp: scores_mono_def score_of_def score_and_reset_fields)
qed

text \<open>
  An iteration of the game loop from a state of the invariant returns in a state of the
  invariant. If it stops the loop, it has sent the game-over message, and after it the
  snapshot, to every client socket, and the team named has reached the threshold.
\<close>

lemma tick_inv:
  assumes inv: "server_inv s" and run: "running s"
  shows "\<exists>s'. tick s = Inr s' \<and> server_inv s' \<and> scores_mono s s' \<and>
           (\<not> running s' \<longrightarrow>
              (\<exists>t n snap. outbox s' = outbox s @ [(client_sockets s, Over t),
                                                (client_sockets s, Update snap)] \<and>
                  score_of s' t = Some n \<and> SCORE_TO_WIN \<le> n))"
proof -
  let ?s1 = "process_inputs s"
  let ?s2 = "?s1\<lparr>game := update_flags (game ?s1)\<rparr>"
  from inv have wf: "wf_game (game s)" and so: "client_sockets s = map fst (players (game s))"
    and one: "one_indicator (game s)"
    by (simp_all add: server_inv_def)
  have wf2: "wf_game (game ?s2)" using wf_update_flags[OF wf_process_inputs[OF wf]] by simp
  have sc2: "scores (game ?s2) = scores (game s)"
    by (simp add: update_flags_frame process_inputs_frame)
  have run2: "running ?s2 = running s" by (simp add: process_inputs_frame)
  have ob2: "outbox ?s2 = outbox s" by (simp add: process_inputs_frame)
  have ov2: "over_rounds ?s2 = over_rounds s" by (simp add: over_rounds_def process_inputs_frame)
  have cs2: "client_sockets ?s2 = client_sockets s" by (simp add: process_inputs_frame)
  have so2: "client_sockets ?s2 = map fst (players (game ?s2))"
    using so by (simp add: process_inputs_frame update_flags_frame)
  have one2: "one_indicator (game ?s2)"
    using one_indicator_process_inputs[OF one] by (simp add: one_indicator_def update_flags_frame)
  have inv2: "server_inv ?s2" by (rule inv_frame[OF inv wf2 so2 one2 sc2 run2 ov2])
  have m2: "scores_mono s ?s2" by (rule scores_mono_same[OF sc2])
  from run run2 have r2: "running ?s2" by simp
  from check_score_wf[OF wf2] show ?thesis
  proof
    assume cs: "check_score ?s2 = Inr ?s2"
    let ?s' = "broadcast ?s2 (Update (serialize (game ?s2)))"
    have t: "tick s = Inr ?s'" using cs by (simp add: tick_def Let_def)
    have "server_inv ?s'"
      by (rule inv_frame[OF inv2])
        (simp_all add: broadcast_def over_rounds_def wf2[simplified] so2[simplified] one2[simplified])
    moreover have "scores_mono s ?s'"
      using m2 by (simp add: scores_mono_def score_of_def broadcast_def)
    moreover have "running ?s'" using r2 by (simp add: broadcast_def)
    ultimately show ?thesis using t by blast
  next
    assume "\<exists>t sc. (t = ''red'' \<or> t = ''blue'') \<and> map_of (scores (game ?s2)) t = Some sc \<and>
                 players (game ?s2) \<noteq> [] \<and>
                 check_score ?s2 = Inr (score_and_reset ?s2 t (sc + 1))"
    then obtain t sc where t: "t = ''red'' \<or> t = ''blue''"
      and sc: "map_of (scores (game ?s2)) t = Some sc"
      and ne: "players (game ?s2) \<noteq> []"
      and cs: "check_score ?s2 = Inr (score_and_reset ?s2 t (sc + 1))" by blast
    let ?s3 = "score_and_reset ?s2 t (sc + 1)"
    let ?s' = "broadcast ?s3 (Update (serialize (game ?s3)))"
    have tk: "tick s = Inr ?s'" using cs by (simp add: tick_def Let_def)
    note inv3 = inv_score_and_reset(1)[OF inv2 r2 t sc ne]
    note m3 = inv_score_and_reset(2)[OF inv2 r2 t sc ne]
    have inv': "server_inv ?s'"
      by (rule inv_frame[OF inv3])
        (simp_all add: broadcast_def over_rounds_def inv3[unfolded server_inv_def])
    have "scores_mono ?s3 ?s'" by (rule scores_mono_same) (simp add: broadcast_def)
    from scores_mono_trans[OF m2 scores_mono_trans[OF m3 this]] have m': "scores_mono s ?s'" .
    have win: "\<exists>t n snap. outbox ?s' = outbox s @ [(client_sockets s, Over t),
                                                (client_sockets s, Update snap)] \<and>
                  score_of ?s' t = Some n \<and> SCORE_TO_WIN \<le> n"
      if nr: "\<not> running ?s'"
    proof -
      from nr r2 have w: "SCORE_TO_WIN \<le> sc + 1"
        by (simp add: broadcast_def score_and_reset_fields split: if_splits)
      then have "outbox ?s' = outbox s @ [(client_sockets s, Over t),
                   (client_sockets s, Update (serialize (game ?s3)))]"
        using ob2 cs2 by (simp add: broadcast_def score_and_reset_fields)
      moreover have "score_of ?s' t = Some (sc + 1)"
        by (simp add: score_of_def broadcast_def score_and_reset_fields AList.update_conv')
      ultimately show ?thesis using w by blast
    qed
    from tk inv' m' win show ?thesis by blast
  qed
qed

lemma scores_pickup_flag: "scores (pickup_flag i k g) = scores g"
  by (simp add: pickup_flag_def Let_def split: option.splits)

lemma scores_fold_pickup: "scores (fold (pickup_flag i) ks g) = scores g"
  by (induction ks arbitrary: g) (simp_all add: scores_pickup_flag)

lemma scores_attempt_pickup: "scores (attempt_pickup g i) = scores g"
  by (simp add: attempt_pickup_def scores_fold_pickup split: option.splits)

lemma scores_attempt_steal: "scores (attempt_steal g a d t draw) = scores g"
  by (simp add: attempt_steal_def split: option.splits)

lemma step_inv:
  assumes inv: "server_inv s"
  shows "\<exists>s'. step s e = Inr s' \<and> server_inv s' \<and> scores_mono s s' \<and>
           (\<not> running s \<longrightarrow>
              \<not> running s' \<and> scores (game s') = scores (game s) \<and>
              over_rounds s' = over_rounds s) \<and>
           (e \<noteq> EvTick \<longrightarrow> running s' = running s)"
proof -
  from inv have wf: "wf_game (game s)" and so: "client_sockets s = map fst (players (game s))"
    and one: "one_indicator (game s)"
    by (simp_all add: server_inv_def)
  have framed: "\<exists>s'. step s e = Inr s' \<and> server_inv s' \<and> scores_mono s s' \<and>
           (\<not> running s \<longrightarrow>
              \<not> running s' \<and> scores (game s') = scores (game s) \<and>
              over_rounds s' = over_rounds s) \<and>
           (e \<noteq> EvTick \<longrightarrow> running s' = running s)"
    if "step s e = Inr s'" "wf_game (game s')" "client_sockets s' = map fst (players (game s'))"
      "one_indicator (game s')" "scores (game s') = scores (game s)"
      "running s' = running s" "over_rounds s' = over_rounds s" for s'
    using that inv_frame[OF inv that(2-7)] scores_mono_same[OF that(5)] by simp
  show ?thesis
  proof (cases e)
    case EvAccept
    show ?thesis
      by (rule framed[of "accept s"])
        (simp_all add: EvAccept wf_accept[OF wf] sockets_accept[OF so] one_indicator_accept[OF one],
          simp_all add: accept_def Let_def over_rounds_def)
  next
    case EvTick
    show ?thesis
    proof (cases "running s")
      case True
      with tick_inv[OF inv True] EvTick show ?thesis by auto
    next
      case False
      show ?thesis by (rule framed[of s]) (simp_all add: EvTick False wf so one)
    qed
  next
    case (EvPickup i)
    show ?thesis
      by (rule framed[of "s\<lparr>game := attempt_pickup (game s) i\<rparr>"])
        (simp_all add: EvPickup wf_attempt_pickup[OF wf] over_rounds_def scores_attempt_pickup
          keys_attempt_pickup so one_indicator_attempt_pickup[OF one])
  next
    case (EvSteal a d t draw)
    show ?thesis
      by (rule framed[of "s\<lparr>game := attempt_steal (game s) a d t draw\<rparr>"])
        (simp_all add: EvSteal wf_attempt_steal[OF wf] over_rounds_def scores_attempt_steal
          keys_attempt_steal so one_indicator_attempt_steal[OF one])
  next
    case (EvPut i m)
    show ?thesis
      by (rule framed[of "queue_put i m s"])
        (simp_all add: EvPut wf so one queue_put_def over_rounds_def)
  next
    case (EvRemove i)
    show ?thesis
      by (rule framed[of "remove_player s i"])
        (simp_all add: EvRemove wf_remove_player[OF wf] sockets_remove_player[OF so]
          one_indicator_remove_player[OF one],
          simp_all add: remove_player_def Let_def over_rounds_def split: option.splits)
  qed
qed

lemma run_inv:
  assumes "server_inv s"
  shows "\<exists>s'. run s evs = Inr s' \<and> server_inv s' \<and> scores_mono s s' \<and>
           (\<not> running s \<longrightarrow>
              \<not> running s' \<and> scores (game s') = scores (game s) \<and>
              over_rounds s' = over_rounds s)"
  using assms
proof (induction evs arbitrary: s)
  case Nil
  then show ?case by (simp add: scores_mono_refl)
next
  case (Cons e evs)
  from step_inv[OF Cons.prems, of e] obtain s1 where s1: "step s e = Inr s1"
    and inv1: "server_inv s1" and m1: "scores_mono s s1"
    and st1: "\<not> running s \<longrightarrow> \<not> running s1 \<and> scores (game s1) = scores (game s) \<and>
                over_rounds s1 = over_rounds s"
    by blast
  from Cons.IH[OF inv1] obtain s' where s': "run s1 evs = Inr s'"
    and inv': "server_inv s'" and m': "scores_mono s1 s'"
    and st': "\<not> running s1 \<longrightarrow> \<not> running s' \<and> scores (game s') = scores (game s1) \<and>
                over_rounds s' = over_rounds s1"
    by blast
  from s1 s' have "run s (e # evs) = Inr s'" by simp
  moreover from st1 st' have "\<not> running s \<longrightarrow>
      \<not> running s' \<and> scores (game s') = scores (game s) \<and> over_rounds s' = over_rounds s"
    by auto
  ultimately show ?case using inv' scores_mono_trans[OF m1 m'] by blast
qed

lemma inv_init_server: "server_inv init_server"
  by (simp add: server_inv_def wf_game_def one_indicator_def init_server_def init_flags_def
      new_Game_State_def Flag_def over_rounds_def const_defs)

lemma inv_winner:
  assumes "server_inv s" and "score_of s t = Some n" and "SCORE_TO_WIN \<le> n"
  shows "\<not> running s \<and> (\<exists>r. r \<noteq> [] \<and> over_rounds s = [(r, Over t)])"
proof -
  from assms(2) have m: "(t, n) \<in> set (scores (game s))"
    by (auto simp: score_of_def dest: map_of_SomeD)
  show ?thesis
  proof (cases "running s")
    case True
    with assms(1) m have "n < SCORE_TO_WIN" by (auto simp: server_inv_def)
    with assms(3) show ?thesis by simp
  next
    case False
    with assms(1) obtain r w where "r \<noteq> []" "over_rounds s = [(r, Over w)]"
      and "\<forall>(t, n) \<in> set (scores (game s)). (SCORE_TO_WIN \<le> n) = (t = w)"
      by (auto simp: server_inv_def)
    with m assms(3) False show ?thesis by auto
  qed
qed

lemma inv_nonneg:
  assumes "server_inv s" and "score_of s t = Some n"
  shows "0 \<le> n"
  using assms by (auto simp: server_inv_def score_of_def dest!: map_of_SomeD)

lemma inv_below:
  assumes "server_inv s" and "running s" and "score_of s t = Some n"
  shows "n < SCORE_TO_WIN"
  using assms by (auto simp: server_inv_def score_of_def dest!: map_of_SomeD)

text \<open>
  The step that takes a score to the threshold is an iteration of the game loop; it sends
  the game-over message naming the team, and after it the snapshot, to every client
  socket, that is to every player of the world, and there is at least one.
\<close>

lemma winning_step:
  assumes inv: "server_inv s" and run: "running s" and st: "step s e = Inr s1"
    and sc: "score_of s1 t = Some n" and w: "SCORE_TO_WIN \<le> n"
  shows "e = EvTick" and "client_sockets s = map fst (players (game s))"
    and "client_sockets s \<noteq> []"
    and "\<exists>snap. outbox s1 = outbox s @ [(client_sockets s, Over t),
                                         (client_sockets s, Update snap)]"
    and "over_rounds s1 = [(client_sockets s, Over t)]"
proof -
  from step_inv[OF inv, of e] st have inv1: "server_inv s1"
    and keep: "e \<noteq> EvTick \<longrightarrow> running s1 = running s" by auto
  from inv_winner[OF inv1 sc w] obtain r where nr: "\<not> running s1"
    and r: "r \<noteq> []" "over_rounds s1 = [(r, Over t)]" by blast
  from keep nr run show e: "e = EvTick" by auto
  from inv show "client_sockets s = map fst (players (game s))" by (simp add: server_inv_def)
  from inv run have ov: "over_rounds s = []" by (simp add: server_inv_def)
  from st e run have tk: "tick s = Inr s1" by simp
  from tick_inv[OF inv run] tk nr obtain t' snap
    where ob: "outbox s1 = outbox s @ [(client_sockets s, Over t'),
                                       (client_sockets s, Update snap)]" by auto
  then have "over_rounds s1 = over_rounds s @ [(client_sockets s, Over t')]"
    by (simp add: over_rounds_def)
  with ov r have eq: "r = client_sockets s" "t' = t" by simp_all
  from r eq show "client_sockets s \<noteq> []" by simp
  from ob eq show "\<exists>snap. outbox s1 = outbox s @ [(client_sockets s, Over t),
                                         (client_sockets s, Update snap)]" by blast
  from r eq show "over_rounds s1 = [(client_sockets s, Over t)]" by simp
qed

subsection \<open>Game over\<close>

lemma run_append:
  "run s (es @ es') = (case run s es of Inl err \<Rightarrow> Inl err | Inr s' \<Rightarrow> run s' es')"
  by (induction es arbitrary: s) (auto split: sum.splits)

text \<open>
  C6. Every run of the server from its initial state returns, with scores that are never
  negative. Along any continuation of the run no score decreases. Once the score of a
  team has reached \<open>SCORE_TO_WIN\<close>, the game loop has stopped (a further iteration does
  nothing), exactly one round of game-over messages has been sent, it names that team and
  its list of recipients is not empty; in every later state of the run still exactly that
  one round has been sent and the score table is the same.

  While the game loop runs, no game-over message has been sent and every score is below
  the threshold. A step that takes the score of a team to the threshold from there is an
  iteration of the game loop, and what it appends to the send log is the game-over message
  naming that team followed by the snapshot, both addressed to all client sockets of that
  moment: these are the sockets of all players of the world, and there is at least one.
\<close>

theorem game_over_once:
  "\<exists>s. run init_server evs = Inr s \<and>
       (\<forall>t n. score_of s t = Some n \<longrightarrow> 0 \<le> n) \<and>
       (\<exists>s'. run s evs' = Inr s' \<and> run init_server (evs @ evs') = Inr s' \<and>
             scores_mono s s' \<and>
             (\<forall>t n. score_of s t = Some n \<longrightarrow> SCORE_TO_WIN \<le> n \<longrightarrow>
                \<not> running s \<and> step s EvTick = Inr s \<and>
                (\<exists>r. r \<noteq> [] \<and> over_rounds s = [(r, Over t)] \<and> over_rounds s' = [(r, Over t)]) \<and>
                \<not> running s' \<and> scores (game s') = scores (game s))) \<and>
       (running s \<longrightarrow>
          over_rounds s = [] \<and>
          (\<forall>t n. score_of s t = Some n \<longrightarrow> n < SCORE_TO_WIN) \<and>
          (\<exists>s1. step s e = Inr s1 \<and>
             (\<forall>t n. score_of s1 t = Some n \<longrightarrow> SCORE_TO_WIN \<le> n \<longrightarrow>
                e = EvTick \<and> \<not> running s1 \<and>
                client_sockets s = map fst (players (game s)) \<and> client_sockets s \<noteq> [] \<and>
                (\<exists>snap. outbox s1 = outbox s @ [(client_sockets s, Over t),
                                                 (client_sockets s, Update snap)]) \<and>
                over_rounds s1 = [(client_sockets s, Over t)])))"
proof -
  from run_inv[OF inv_init_server, of evs] obtain s
    where s: "run init_server evs = Inr s" and inv: "server_inv s" by blast
  from run_inv[OF inv, of evs'] obtain s'
    where s': "run s evs' = Inr s'" and m: "scores_mono s s'"
      and st: "\<not> running s \<longrightarrow> \<not> running s' \<and> scores (game s') = scores (game s) \<and>
                 over_rounds s' = over_rounds s"
    by blast
  have all: "run init_server (evs @ evs') = Inr s'" using s s' by (simp add: run_append)
  have nn: "\<forall>t n. score_of s t = Some n \<longrightarrow> 0 \<le> n" using inv_nonneg[OF inv] by blast
  have win: "\<not> running s \<and> step s EvTick = Inr s \<and>
             (\<exists>r. r \<noteq> [] \<and> over_rounds s = [(r, Over t)] \<and> over_rounds s' = [(r, Over t)]) \<and>
             \<not> running s' \<and> scores (game s') = scores (game s)"
    if "score_of s t = Some n" "SCORE_TO_WIN \<le> n" for t n
    using inv_winner[OF inv that] st by auto
  have later: "\<exists>s'. run s evs' = Inr s' \<and> run init_server (evs @ evs') = Inr s' \<and>
             scores_mono s s' \<and>
             (\<forall>t n. score_of s t = Some n \<longrightarrow> SCORE_TO_WIN \<le> n \<longrightarrow>
                \<not> running s \<and> step s EvTick = Inr s \<and>
                (\<exists>r. r \<noteq> [] \<and> over_rounds s = [(r, Over t)] \<and> over_rounds s' = [(r, Over t)]) \<and>
                \<not> running s' \<and> scores (game s') = scores (game s))"
    using s' all m win by blast
  have going: "over_rounds s = [] \<and>
          (\<forall>t n. score_of s t = Some n \<longrightarrow> n < SCORE_TO_WIN) \<and>
          (\<exists>s1. step s e = Inr s1 \<and>
             (\<forall>t n. score_of s1 t = Some n \<longrightarrow> SCORE_TO_WIN \<le> n \<longrightarrow>
                e = EvTick \<and> \<not> running s1 \<and>
                client_sockets s = map fst (players (game s)) \<and> client_sockets s \<noteq> [] \<and>
                (\<exists>snap. outbox s1 = outbox s @ [(client_sockets s, Over t),
                                                 (client_sockets s, Update snap)]) \<and>
                over_rounds s1 = [(client_sockets s, Over t)]))"
    if run: "running s"
  proof -
    from inv run have ov: "over_rounds s = []" by (simp add: server_inv_def)
    from step_inv[OF inv, of e] obtain s1 where s1: "step s e = Inr s1"
      and inv1: "server_inv s1" by blast
    have "e = EvTick \<and> \<not> running s1 \<and>
          client_sockets s = map fst (players (game s)) \<and> client_sockets s \<noteq> [] \<and>
          (\<exists>snap. outbox s1 = outbox s @ [(client_sockets s, Over t),
                                           (client_sockets s, Update snap)]) \<and>
          over_rounds s1 = [(client_sockets s, Over t)]"
      if "score_of s1 t = Some n" "SCORE_TO_WIN \<le> n" for t n
      using winning_step[OF inv run s1 that] inv_winner[OF inv1 that] by simp
    with ov inv_below[OF inv run] s1 show ?thesis by blast
  qed
  from s nn later going show ?thesis by blast
qed

text \<open>
  Witness: in the game \<open>ex_game\<close> red scores five times. Before the last iteration of
  the game loop (\<open>ex_before_win\<close>) the loop runs, players 1, 2 and 3 are connected and
  no game-over message has been sent. The iteration stops the loop and sends the game-over
  message naming red, then the snapshot, to the sockets 1, 2 and 3. The steps
  \<open>ex_after\<close> of the other threads and of the game loop send no second one and leave the
  scores as they are.
\<close>

lemma ex_game_red_wins:
  "(case run init_server ex_before_win of
      Inr s \<Rightarrow> (running s, client_sockets s,
                case step s EvTick of Inr s1 \<Rightarrow> score_of s1 ''red'' | Inl e \<Rightarrow> None)
    | Inl e \<Rightarrow> (False, [], None)) = (True, [1, 2, 3], Some 5)"
  by code_simp

theorem game_over_once_witness:
  "\<exists>s s1 s' snap.
      run init_server ex_before_win = Inr s \<and> running s \<and> over_rounds s = [] \<and>
      client_sockets s = [1, 2, 3] \<and> map fst (players (game s)) = [1, 2, 3] \<and>
      step s EvTick = Inr s1 \<and> run init_server ex_game = Inr s1 \<and>
      score_of s1 ''red'' = Some 5 \<and> \<not> running s1 \<and>
      outbox s1 = outbox s @ [([1, 2, 3], Over ''red''), ([1, 2, 3], Update snap)] \<and>
      over_rounds s1 = [([1, 2, 3], Over ''red'')] \<and>
      run s1 ex_after = Inr s' \<and> \<not> running s' \<and>
      over_rounds s' = [([1, 2, 3], Over ''red'')] \<and>
      scores (game s') = scores (game s1)"
proof -
  from game_over_once[of ex_before_win "[EvTick]" EvTick] obtain s s1
    where s: "run init_server ex_before_win = Inr s"
      and going: "running s \<longrightarrow>
          over_rounds s = [] \<and>
          (\<exists>s1. step s EvTick = Inr s1 \<and>
             (\<forall>t n. score_of s1 t = Some n \<longrightarrow> SCORE_TO_WIN \<le> n \<longrightarrow>
                EvTick = EvTick \<and> \<not> running s1 \<and>
                client_sockets s = map fst (players (game s)) \<and> client_sockets s \<noteq> [] \<and>
                (\<exists>snap. outbox s1 = outbox s @ [(client_sockets s, Over t),
                                                 (client_sockets s, Update snap)]) \<and>
                over_rounds s1 = [(client_sockets s, Over t)]))"
    by blast
  from ex_game_red_wins s have run: "running s" and cs: "client_sockets s = [1, 2, 3]"
    by simp_all
  from going run obtain s1 where ov: "over_rounds s = []" and s1: "step s EvTick = Inr s1"
    and w: "\<forall>t n. score_of s1 t = Some n \<longrightarrow> SCORE_TO_WIN \<le> n \<longrightarrow>
                \<not> running s1 \<and>
                client_sockets s = map fst (players (game s)) \<and>
                (\<exists>snap. outbox s1 = outbox s @ [(client_sockets s, Over t),
                                                 (client_sockets s, Update snap)]) \<and>
                over_rounds s1 = [(client_sockets s, Over t)]"
    by blast
  from ex_game_red_wins s
  have "(case step s EvTick of Inr s1 \<Rightarrow> score_of s1 ''red'' | Inl e \<Rightarrow> None) = Some 5"
    by auto
  with s1 have red: "score_of s1 ''red'' = Some 5" by simp
  have five: "SCORE_TO_WIN \<le> 5" by (simp add: SCORE_TO_WIN_def)
  from w[rule_format, OF red five] have nr1: "\<not> running s1"
    and pk0: "client_sockets s = map fst (players (game s))"
    and ob0: "\<exists>snap. outbox s1 = outbox s @ [(client_sockets s, Over ''red''),
                                              (client_sockets s, Update snap)]"
    and ov0: "over_rounds s1 = [(client_sockets s, Over ''red'')]"
    by blast+
  from pk0 cs have pk: "map fst (players (game s)) = [1, 2, 3]" by simp
  from ob0 cs obtain snap
    where ob: "outbox s1 = outbox s @ [([1, 2, 3], Over ''red''), ([1, 2, 3], Update snap)]"
    by auto
  from ov0 cs have ov1: "over_rounds s1 = [([1, 2, 3], Over ''red'')]" by simp
  from s s1 have g: "run init_server ex_game = Inr s1"
    by (simp add: ex_game_def run_append)
  from game_over_once[of ex_game ex_after EvTick] g obtain s'
    where s': "run s1 ex_after = Inr s'"
      and win: "\<forall>t n. score_of s1 t = Some n \<longrightarrow> SCORE_TO_WIN \<le> n \<longrightarrow>
                (\<exists>r. r \<noteq> [] \<and> over_rounds s1 = [(r, Over t)] \<and> over_rounds s' = [(r, Over t)]) \<and>
                \<not> running s' \<and> scores (game s') = scores (game s1)"
    by auto
  from win[rule_format, OF red five] ov1
  have "\<not> running s' \<and> over_rounds s' = [([1, 2, 3], Over ''red'')] \<and>
      scores (game s') = scores (game s1)"
    by auto
  with s run ov cs pk s1 g red nr1 ob ov1 s' show ?thesis
    by - (rule exI[of _ s], rule exI[of _ s1], rule exI[of _ s'], rule exI[of _ snap], simp)
qed

subsection \<open>No player ever carries both flags\<close>


end
